theory Spec2Isabelle
  imports Main "HOL-Library.Word"
begin

unbundle bit_operations_syntax

section \<open>WireTAP server: SocketCAN to TCP GVRET bridge\<close>

text \<open>
  A shallow embedding of \<^verbatim>\<open>tools/wiretap-server/wiretap-server.py\<close>.
  Python integers are \<^typ>\<open>int\<close>, bytes are \<^typ>\<open>8 word\<close>, exceptions are
  values of the type \<open>error\<close>.
\<close>

type_synonym byte = "8 word"

datatype error = StructError | OverflowError | IndexError | ValueError

subsection \<open>DLC and length\<close>

definition CAN_FD_DLC_LEN :: "int list" where
  "CAN_FD_DLC_LEN = [0, 1, 2, 3, 4, 5, 6, 7, 8, 12, 16, 20, 24, 32, 48, 64]"

definition dlc_to_len :: "int \<Rightarrow> bool \<Rightarrow> int" where
  "dlc_to_len dlc is_fd =
     (if dlc \<le> 8 then dlc
      else if is_fd \<and> dlc \<le> 15 then CAN_FD_DLC_LEN ! nat dlc
      else 8)"

text \<open>The \<^verbatim>\<open>for dlc, dlen in enumerate(CAN_FD_DLC_LEN)\<close> loop of \<^verbatim>\<open>len_to_dlc\<close>:
  the first index whose table entry is at least the length, 15 when the table is exhausted.\<close>

fun len_to_dlc_scan :: "int \<Rightarrow> int \<Rightarrow> int list \<Rightarrow> int" where
  "len_to_dlc_scan len dlc [] = 15"
| "len_to_dlc_scan len dlc (dlen # rest) =
     (if dlen \<ge> len then dlc else len_to_dlc_scan len (dlc + 1) rest)"

definition len_to_dlc :: "int \<Rightarrow> int" where
  "len_to_dlc len = (if len \<le> 8 then len else len_to_dlc_scan len 0 CAN_FD_DLC_LEN)"

subsection \<open>Bytes, slices and struct packing\<close>

definition CAN_EFF_FLAG :: int where "CAN_EFF_FLAG = 0x80000000"
definition CAN_RTR_FLAG :: int where "CAN_RTR_FLAG = 0x40000000"
definition CAN_ERR_FLAG :: int where "CAN_ERR_FLAG = 0x20000000"
definition CAN_EFF_MASK :: int where "CAN_EFF_MASK = 0x1FFFFFFF"
definition CAN_SFF_MASK :: int where "CAN_SFF_MASK = 0x000007FF"
definition CANFD_BRS :: int where "CANFD_BRS = 0x01"
definition CANFD_ESI :: int where "CANFD_ESI = 0x02"

text \<open>\<^verbatim>\<open>xs[i:j]\<close> for indices that are not negative, and \<^verbatim>\<open>xs[:n]\<close> for any
  integer \<open>n\<close> (a negative \<open>n\<close> counts from the end).\<close>

definition py_slice :: "nat \<Rightarrow> nat \<Rightarrow> 'a list \<Rightarrow> 'a list" where
  "py_slice i j xs = take (j - i) (drop i xs)"

definition py_upto :: "int \<Rightarrow> 'a list \<Rightarrow> 'a list" where
  "py_upto n xs = (if 0 \<le> n then take (nat n) xs else take (length xs - nat (- n)) xs)"

definition py_index :: "'a list \<Rightarrow> nat \<Rightarrow> error + 'a" where
  "py_index xs i = (if i < length xs then Inr (xs ! i) else Inl IndexError)"

definition ljust :: "nat \<Rightarrow> byte list \<Rightarrow> byte list" where
  "ljust n xs = xs @ replicate (n - length xs) 0"

text \<open>Little-endian bytes of an integer, lowest byte first.\<close>

fun le_bytes :: "nat \<Rightarrow> int \<Rightarrow> byte list" where
  "le_bytes 0 x = []"
| "le_bytes (Suc n) x = word_of_int x # le_bytes n (x div 256)"

fun from_bytes_le :: "byte list \<Rightarrow> int" where
  "from_bytes_le [] = 0"
| "from_bytes_le (b # bs) = uint b + 256 * from_bytes_le bs"

text \<open>\<^verbatim>\<open>int.to_bytes(n, "little", signed=False)\<close> raises OverflowError outside
  \<open>0 .. 256 ^ n - 1\<close>; \<^verbatim>\<open>struct.pack\<close> raises struct.error outside the range of
  the format (\<^verbatim>\<open>I\<close>: 32 bits, \<^verbatim>\<open>B\<close>: 8 bits); \<^verbatim>\<open>Ns\<close> truncates or pads
  with zero bytes to exactly \<open>N\<close> bytes.\<close>

definition to_bytes :: "nat \<Rightarrow> int \<Rightarrow> error + byte list" where
  "to_bytes n x = (if 0 \<le> x \<and> x < 256 ^ n then Inr (le_bytes n x) else Inl OverflowError)"

definition pack_I :: "int \<Rightarrow> error + byte list" where
  "pack_I x = (if 0 \<le> x \<and> x < 2 ^ 32 then Inr (le_bytes 4 x) else Inl StructError)"

definition pack_B :: "int \<Rightarrow> error + byte list" where
  "pack_B x = (if 0 \<le> x \<and> x < 256 then Inr (le_bytes 1 x) else Inl StructError)"

definition pack_s :: "nat \<Rightarrow> byte list \<Rightarrow> byte list" where
  "pack_s n xs = ljust n (take n xs)"

subsection \<open>Queue entries and the disk cache\<close>

text \<open>The row tuple built by \<^verbatim>\<open>PostgresWriter.enqueue\<close>:
  \<^verbatim>\<open>(ts_dt, extended, is_fd, arb_id, id_hex, dlc, payload, bus, dir)\<close>. The timestamp is
  the datetime as microseconds since the epoch; the conversion from the float
  \<^verbatim>\<open>time.time()\<close> is not modelled.\<close>

record row =
  r_ts :: int
  r_extended :: bool
  r_is_fd :: bool
  r_arb_id :: int
  r_id_hex :: "string option"
  r_dlc :: int
  r_data :: "byte list"
  r_bus :: int
  r_dir :: string

text \<open>An item of the in-memory queue: a row, or the empty tuple \<^verbatim>\<open>()\<close> that
  \<^verbatim>\<open>close\<close> puts to wake the worker (the worker keeps an item only
  \<^verbatim>\<open>if item and len(item) == 9\<close>).\<close>

datatype item = Wake | Row row

text \<open>\<^verbatim>\<open>DiskCache\<close>: the table \<^verbatim>\<open>frames\<close> as its rows in \<^verbatim>\<open>id\<close> order,
  with the AUTOINCREMENT counter (the largest id handed out so far).\<close>

record disk_cache =
  frames :: "(int \<times> row) list"
  seq :: int
  max_bytes :: int

text \<open>What the environment decides during one pass of the worker: whether
  \<^verbatim>\<open>psycopg2.connect\<close> succeeds, whether executing and committing a batch succeeds,
  what \<^verbatim>\<open>stat\<close> reports as the size of the cache file (\<open>None\<close>: OSError),
  whether the SQLite insert and commit of \<^verbatim>\<open>write_batch\<close> succeed, and whether
  the \<^verbatim>\<open>DELETE\<close> statement of \<^verbatim>\<open>delete_batch\<close> succeeds. That statement has one
  bound parameter for each id, and SQLite raises \<^verbatim>\<open>OperationalError\<close> (too many SQL
  variables) when a statement has more parameters than the limit of the library at hand
  (999, 32766 or 250000, by version and build): for a list of ids longer than that limit
  \<open>delete_ok\<close> is False. The \<^verbatim>\<open>SELECT\<close> statements of \<^verbatim>\<open>is_empty\<close>,
  \<^verbatim>\<open>count\<close> and \<^verbatim>\<open>read_batch\<close> and the reopening of the cache file after a drain
  are taken to succeed.\<close>

record env =
  connect_ok :: bool
  execute_ok :: "row list \<Rightarrow> bool"
  st_size :: "disk_cache \<Rightarrow> int option"
  write_ok :: "disk_cache \<Rightarrow> row list \<Rightarrow> bool"
  delete_ok :: "disk_cache \<Rightarrow> int list \<Rightarrow> bool"

definition DiskCache :: "int \<Rightarrow> disk_cache" where
  "DiskCache max_mb = \<lparr>frames = [], seq = 0, max_bytes = max_mb * 1024 * 1024\<rparr>"

fun number_rows :: "int \<Rightarrow> row list \<Rightarrow> (int \<times> row) list" where
  "number_rows n [] = []"
| "number_rows n (r # rs) = (n + 1, r\<lparr>r_id_hex := None\<rparr>) # number_rows (n + 1) rs"

text \<open>\<^verbatim>\<open>write_batch\<close> when the insert and the commit succeed: the cache and the number
  of rows written. It does not look at the size of the file.\<close>

definition write_batch :: "disk_cache \<Rightarrow> row list \<Rightarrow> disk_cache \<times> int" where
  "write_batch c rows =
     (if rows = [] then (c, 0)
      else (c\<lparr>frames := frames c @ number_rows (seq c) rows,
               seq := seq c + int (length rows)\<rparr>, int (length rows)))"

text \<open>\<^verbatim>\<open>ORDER BY id LIMIT ?\<close>: a negative limit is no limit in SQLite.\<close>

definition read_batch :: "disk_cache \<Rightarrow> int \<Rightarrow> int list \<times> row list" where
  "read_batch c limit =
     (let sel = (if limit < 0 then frames c else take (nat limit) (frames c))
      in (map fst sel, map snd sel))"

text \<open>\<^verbatim>\<open>delete_batch\<close>: \<open>None\<close> when the \<^verbatim>\<open>DELETE\<close> statement raises, which
  leaves the table as it is.\<close>

definition delete_batch :: "env \<Rightarrow> disk_cache \<Rightarrow> int list \<Rightarrow> disk_cache option" where
  "delete_batch e c ids =
     (if ids = [] then Some c
      else if delete_ok e c ids
      then Some (c\<lparr>frames := filter (\<lambda>(i, r). i \<notin> set ids) (frames c)\<rparr>)
      else None)"

definition count :: "disk_cache \<Rightarrow> int" where
  "count c = int (length (frames c))"

definition is_empty :: "disk_cache \<Rightarrow> bool" where
  "is_empty c = (frames c = [])"

definition size_bytes :: "env \<Rightarrow> disk_cache \<Rightarrow> int" where
  "size_bytes e c = (case st_size e c of Some n \<Rightarrow> n | None \<Rightarrow> 0)"

definition is_full :: "env \<Rightarrow> disk_cache \<Rightarrow> bool" where
  "is_full e c = (size_bytes e c \<ge> max_bytes c)"

subsection \<open>The ingest pipeline\<close>

text \<open>\<^verbatim>\<open>PostgresWriter\<close>. \<open>q\<close> is the bounded queue, oldest item first;
  \<open>batch\<close> is the worker's local variable of that name, which lives across passes of
  its loop; \<open>conn\<close> says whether \<^verbatim>\<open>self._conn\<close> is a live connection;
  \<open>sql_store\<close> is the external SQL store: the rows of the committed transactions, in
  commit order.\<close>

record postgres_writer =
  q :: "item list"
  maxsize :: int
  batch_size :: int
  queue_flush_pct :: int
  default_dir :: string
  conn :: bool
  db_unavailable :: bool
  draining_cache :: bool
  disk_cache :: disk_cache
  batch :: "row list"
  count_enqueued :: int
  count_written :: int
  count_dropped :: int
  count_cached :: int
  count_cache_recovered :: int
  sql_store :: "row list"

definition PostgresWriter :: "int \<Rightarrow> int \<Rightarrow> string \<Rightarrow> int \<Rightarrow> int \<Rightarrow> disk_cache \<Rightarrow> postgres_writer" where
  "PostgresWriter batch_size0 queue_max default_dir0 cache_max_mb queue_flush_pct0 cache0 =
     \<lparr>q = [], maxsize = queue_max, batch_size = batch_size0, queue_flush_pct = queue_flush_pct0,
      default_dir = default_dir0, conn = False, db_unavailable = False, draining_cache = False,
      disk_cache = cache0\<lparr>max_bytes := cache_max_mb * 1024 * 1024\<rparr>, batch = [],
      count_enqueued = 0, count_written = 0, count_dropped = 0, count_cached = 0,
      count_cache_recovered = 0, sql_store = []\<rparr>"

text \<open>\<^verbatim>\<open>Queue.put_nowait\<close> raises Full when \<^verbatim>\<open>maxsize > 0\<close> and the queue holds
  \<^verbatim>\<open>maxsize\<close> items.\<close>

definition queue_full :: "postgres_writer \<Rightarrow> bool" where
  "queue_full w = (0 < maxsize w \<and> maxsize w \<le> int (length (q w)))"

definition enqueue ::
  "postgres_writer \<Rightarrow> int \<Rightarrow> int \<Rightarrow> int \<Rightarrow> byte list \<Rightarrow> int \<Rightarrow> string option \<Rightarrow> bool \<Rightarrow> postgres_writer" where
  "enqueue w ts can_id dlc data_bytes bus dir_arg is_fd =
     (let extended = (can_id AND CAN_EFF_FLAG \<noteq> 0);
          arb_id = can_id AND (if extended then CAN_EFF_MASK else CAN_SFF_MASK);
          data_len = (if is_fd then dlc_to_len dlc is_fd else min dlc 8);
          payload = py_upto data_len data_bytes;
          dir_final = (case dir_arg of None \<Rightarrow> default_dir w
                       | Some d \<Rightarrow> if d = [] then default_dir w else d);
          r = \<lparr>r_ts = ts, r_extended = extended, r_is_fd = is_fd, r_arb_id = arb_id,
               r_id_hex = None, r_dlc = dlc, r_data = payload, r_bus = bus, r_dir = dir_final\<rparr>
      in if queue_full w then w\<lparr>count_dropped := count_dropped w + 1\<rparr>
         else w\<lparr>q := q w @ [Row r], count_enqueued := count_enqueued w + 1\<rparr>)"

definition write_to_cache :: "env \<Rightarrow> postgres_writer \<Rightarrow> row list \<Rightarrow> postgres_writer" where
  "write_to_cache e w rows =
     (if is_full e (disk_cache w)
      then w\<lparr>count_dropped := count_dropped w + int (length rows)\<rparr>
      else if write_ok e (disk_cache w) rows
      then (case write_batch (disk_cache w) rows of
              (c, written) \<Rightarrow> w\<lparr>disk_cache := c, count_cached := count_cached w + written\<rparr>)
      else w\<lparr>count_dropped := count_dropped w + int (length rows)\<rparr>)"

text \<open>The loop of \<^verbatim>\<open>_drain_queue_to_cache\<close> over the items the queue holds; the
  second argument is its local \<^verbatim>\<open>batch\<close>.\<close>

fun drain_items :: "env \<Rightarrow> row list \<Rightarrow> item list \<Rightarrow> postgres_writer \<Rightarrow> postgres_writer" where
  "drain_items e b [] w = (if b \<noteq> [] then write_to_cache e w b else w)"
| "drain_items e b (Wake # its) w = drain_items e b its w"
| "drain_items e b (Row r # its) w =
     (if int (length (b @ [r])) \<ge> batch_size w
      then drain_items e [] its (write_to_cache e w (b @ [r]))
      else drain_items e (b @ [r]) its w)"

definition drain_queue_to_cache :: "env \<Rightarrow> postgres_writer \<Rightarrow> postgres_writer" where
  "drain_queue_to_cache e w = drain_items e [] (q w) (w\<lparr>q := []\<rparr>)"

text \<open>\<^verbatim>\<open>size / cap >= self._queue_flush_threshold\<close> with the threshold
  \<^verbatim>\<open>queue_flush_pct / 100.0\<close>, compared exactly (the floats' rounding is not
  modelled).\<close>

definition maybe_flush_queue_overflow :: "env \<Rightarrow> postgres_writer \<Rightarrow> postgres_writer" where
  "maybe_flush_queue_overflow e w =
     (let cap = maxsize w; size = int (length (q w))
      in if cap = 0 then w
         else if (if 0 < cap then queue_flush_pct w * cap \<le> size * 100
                  else size * 100 \<le> queue_flush_pct w * cap)
         then drain_queue_to_cache e w
         else w)"

text \<open>The \<^verbatim>\<open>except Exception\<close> branch of \<^verbatim>\<open>_worker\<close> (without its sleep).\<close>

definition worker_except :: "env \<Rightarrow> postgres_writer \<Rightarrow> postgres_writer" where
  "worker_except e w =
     (let w1 = w\<lparr>conn := False, db_unavailable := True\<rparr>;
          w2 = (if batch w1 \<noteq> [] then (write_to_cache e w1 (batch w1))\<lparr>batch := []\<rparr> else w1)
      in drain_queue_to_cache e w2)"

text \<open>\<^verbatim>\<open>while len(batch) < self.batch_size: item = self.q.get_nowait() ...\<close>\<close>

fun collect :: "int \<Rightarrow> row list \<Rightarrow> item list \<Rightarrow> row list \<times> item list" where
  "collect n b [] = (b, [])"
| "collect n b (it # its) =
     (if int (length b) < n
      then collect n (case it of Row r \<Rightarrow> b @ [r] | Wake \<Rightarrow> b) its
      else (b, it # its))"

text \<open>Priority 2 of the worker: one batch from the in-memory queue. The first
  \<^verbatim>\<open>get\<close> waits up to the flush interval; here it sees the queue as it is when the
  pass starts.\<close>

definition worker_queue :: "env \<Rightarrow> postgres_writer \<Rightarrow> postgres_writer" where
  "worker_queue e w =
     (let (b0, q0) = (case q w of [] \<Rightarrow> ([], [])
                      | it # its \<Rightarrow> ((case it of Row r \<Rightarrow> [r] | Wake \<Rightarrow> []), its));
          (b, q1) = collect (batch_size w) b0 q0;
          w1 = w\<lparr>batch := b, q := q1\<rparr>
      in if b = [] then (if execute_ok e [] then w1 else worker_except e w1)
         else if execute_ok e b
         then w1\<lparr>sql_store := sql_store w1 @ b,
                 count_written := count_written w1 + int (length b)\<rparr>
         else worker_except e w1)"

text \<open>One pass of the \<^verbatim>\<open>while self._alive\<close> loop of \<^verbatim>\<open>_worker\<close>. While it
  drains the cache, \<^verbatim>\<open>delete_batch\<close> runs after the batch has been committed to the SQL
  store and before the counters are updated: when it raises, the \<^verbatim>\<open>except\<close> branch
  runs with the committed rows in \<^verbatim>\<open>batch\<close>.\<close>

definition worker_pass :: "env \<Rightarrow> postgres_writer \<Rightarrow> postgres_writer" where
  "worker_pass e w =
     (let w1 = maybe_flush_queue_overflow e w
      in if \<not> conn w1 \<and> \<not> connect_ok e then worker_except e w1
         else
           let w2 = (if \<not> conn w1 then w1\<lparr>conn := True, db_unavailable := False\<rparr> else w1)
           in if \<not> is_empty (disk_cache w2)
              then
                (case read_batch (disk_cache w2) (batch_size w2) of
                   (ids, b) \<Rightarrow>
                     let w3 = w2\<lparr>draining_cache := True, batch := b\<rparr>
                     in if b \<noteq> []
                        then if execute_ok e b
                             then
                               let w4 = w3\<lparr>sql_store := sql_store w3 @ b\<rparr>
                               in (case delete_batch e (disk_cache w4) ids of
                                     None \<Rightarrow> worker_except e w4
                                   | Some c \<Rightarrow>
                                       w4\<lparr>disk_cache := c,
                                          count_written := count_written w4 + int (length b),
                                          count_cache_recovered :=
                                            count_cache_recovered w4 + int (length b)\<rparr>)
                             else worker_except e w3
                        else worker_queue e
                               (w3\<lparr>draining_cache := False,
                                    disk_cache :=
                                      DiskCache (max_bytes (disk_cache w3) div (1024 * 1024))\<rparr>))
              else worker_queue e w2)"

text \<open>\<^verbatim>\<open>_shutdown_flush\<close>, which the worker runs when its loop ends: the rows left
  in the queue go to the SQL store if there is a connection and the write succeeds, to the
  disk cache otherwise.\<close>

fun rows_of :: "item list \<Rightarrow> row list" where
  "rows_of [] = []"
| "rows_of (Wake # its) = rows_of its"
| "rows_of (Row r # its) = r # rows_of its"

definition shutdown_flush :: "env \<Rightarrow> postgres_writer \<Rightarrow> postgres_writer" where
  "shutdown_flush e w =
     (let remaining = rows_of (q w);
          w1 = w\<lparr>q := []\<rparr>
      in if remaining = [] then w1\<lparr>conn := False\<rparr>
         else if conn w1 \<and> execute_ok e remaining
         then w1\<lparr>sql_store := sql_store w1 @ remaining,
                 count_written := count_written w1 + int (length remaining),
                 conn := False\<rparr>
         else write_to_cache e (w1\<lparr>conn := False\<rparr>) remaining)"

subsection \<open>The GVRET client session\<close>

text \<open>\<^verbatim>\<open>GVRETClient\<close>. \<open>sent\<close> is the sequence of bytes handed to
  \<^verbatim>\<open>conn.sendall\<close>, in order (a failure of the socket itself is the environment's
  and is not modelled). The clock is read as \<open>us\<close>, the value of
  \<^verbatim>\<open>int((time.monotonic() - self.t0) * 1_000_000)\<close>.\<close>

record gvret_client =
  binary :: bool
  buf :: "byte list"
  alive :: bool
  bus_count :: int
  bus_speeds :: "int list"
  sent :: "byte list"

definition GVRETClient :: "int \<Rightarrow> int list \<Rightarrow> gvret_client" where
  "GVRETClient n speeds =
     \<lparr>binary = False, buf = [], alive = True, bus_count = n, bus_speeds = speeds, sent = []\<rparr>"

definition send :: "gvret_client \<Rightarrow> byte list \<Rightarrow> gvret_client" where
  "send s b = s\<lparr>sent := sent s @ b\<rparr>"

definition close :: "gvret_client \<Rightarrow> gvret_client" where
  "close s = s\<lparr>alive := False\<rparr>"

definition reply_dev_info :: "gvret_client \<Rightarrow> gvret_client" where
  "reply_dev_info s = send s ([0xF1, 0x07] @ le_bytes 2 400 @ [1, 0, 0, 0])"

definition reply_canbus_params :: "gvret_client \<Rightarrow> error + gvret_client" where
  "reply_canbus_params s =
     (let n = bus_count s;
          can0_enabled = (if n \<ge> 1 then 1 else 0 :: int);
          can1_enabled = (if n \<ge> 2 then 1 else 0 :: int);
          can0_listen = (0 :: int);
          can1_listen = (0 :: int);
          can0_flags = (if can0_enabled \<noteq> 0 then 1 else 0) OR push_bit 4 (if can0_listen \<noteq> 0 then 1 else 0 :: int);
          can1_flags = (if can1_enabled \<noteq> 0 then 1 else 0) OR push_bit 4 (if can1_listen \<noteq> 0 then 1 else 0 :: int)
      in case (if n \<ge> 1 then py_index (bus_speeds s) 0 else Inr 0) of
           Inl err \<Rightarrow> Inl err
         | Inr can0_speed \<Rightarrow>
             (case (if n \<ge> 2 then py_index (bus_speeds s) 1 else Inr 0) of
                Inl err \<Rightarrow> Inl err
              | Inr can1_speed \<Rightarrow>
                  (case to_bytes 4 can0_speed of
                     Inl err \<Rightarrow> Inl err
                   | Inr b0 \<Rightarrow>
                       (case to_bytes 4 can1_speed of
                          Inl err \<Rightarrow> Inl err
                        | Inr b1 \<Rightarrow>
                            Inr (send s ([0xF1, 0x06] @ [word_of_int can0_flags] @ b0
                                         @ [word_of_int can1_flags] @ b1))))))"

definition reply_num_buses :: "gvret_client \<Rightarrow> gvret_client" where
  "reply_num_buses s = send s ([0xF1, 0x0C] @ [word_of_int (bus_count s AND 0xFF)])"

definition reply_timebase :: "int \<Rightarrow> gvret_client \<Rightarrow> gvret_client" where
  "reply_timebase us s = send s ([0xF1, 0x01] @ le_bytes 4 (us AND 0xFFFFFFFF))"

definition reply_keepalive :: "gvret_client \<Rightarrow> gvret_client" where
  "reply_keepalive s = send s [0xF1, 0x09, 0xDE, 0xAD]"

text \<open>\<^verbatim>\<open>self.buf.find(b"\\xE7\\xE7")\<close>: the lowest index where the pair starts;
  \<open>None\<close> is Python's \<open>-1\<close>.\<close>

fun find_e7e7 :: "byte list \<Rightarrow> nat option" where
  "find_e7e7 (a # b # bs) =
     (if a = 0xE7 \<and> b = 0xE7 then Some 0 else map_option Suc (find_e7e7 (b # bs)))"
| "find_e7e7 bs = None"

text \<open>The handshake loop of \<^verbatim>\<open>_rx_loop\<close>: it runs on every chunk, in ascii and in
  binary state alike.\<close>

function handshake :: "gvret_client \<Rightarrow> gvret_client" where
  "handshake s =
     (case find_e7e7 (buf s) of
        None \<Rightarrow> s
      | Some idx \<Rightarrow> handshake (s\<lparr>buf := drop (idx + 2) (buf s), binary := True\<rparr>))"
  by pat_completeness auto
termination
proof (relation "measure (\<lambda>s. length (buf s))")
  show "wf (measure (\<lambda>s. length (buf s)))" by simp
next
  fix s :: gvret_client and idx
  assume "find_e7e7 (buf s) = Some idx"
  then have "buf s \<noteq> []" by (cases "buf s") auto
  then show "(s\<lparr>buf := drop (idx + 2) (buf s), binary := True\<rparr>, s) \<in> measure (\<lambda>s. length (buf s))"
    by simp
qed

text \<open>\<^verbatim>\<open>while self.binary and self.buf and self.buf[0] != 0xF1: del self.buf[0]\<close>\<close>

definition resync :: "byte list \<Rightarrow> byte list" where
  "resync bs = dropWhile (\<lambda>b. b \<noteq> 0xF1) bs"

text \<open>\<^verbatim>\<open>_try_consume_send_frame\<close>. The callable \<^verbatim>\<open>tx_func\<close> acts on a state
  \<open>'w\<close> of its own and may raise. The result is the returned flag, the session, and the
  state after \<^verbatim>\<open>tx_func\<close> or the exception it raised.\<close>

definition try_consume_send_frame ::
  "(int \<Rightarrow> int \<Rightarrow> byte list \<Rightarrow> 'w \<Rightarrow> error + 'w) option \<Rightarrow> gvret_client \<Rightarrow> 'w
     \<Rightarrow> bool \<times> gvret_client \<times> (error + 'w)" where
  "try_consume_send_frame tx_func s w =
     (if length (buf s) < 8 then (False, s, Inr w)
      else if \<not> (buf s ! 0 = 0xF1 \<and> buf s ! 1 = 0x00) then (False, s, Inr w)
      else
        let dlc = uint (buf s ! 7);
            need = 8 + nat dlc
        in if length (buf s) < need then (False, s, Inr w)
           else
             let can_id_le = from_bytes_le (py_slice 2 6 (buf s));
                 bus = uint (buf s ! 6) AND 0xFF;
                 dlc1 = min dlc 8;
                 data_bytes = py_slice 8 (8 + nat dlc1) (buf s);
                 s1 = s\<lparr>buf := drop need (buf s)\<rparr>;
                 is_eff = (can_id_le AND 0x80000000 \<noteq> 0);
                 arb = can_id_le AND (if is_eff then 0x1FFFFFFF else 0x7FF);
                 can_id_sc = arb OR (if is_eff then CAN_EFF_FLAG else 0)
             in case tx_func of
                  None \<Rightarrow> (True, s1, Inr w)
                | Some f \<Rightarrow> (True, s1, f bus can_id_sc data_bytes w))"

text \<open>The \<^verbatim>\<open>while self.binary\<close> loop of \<^verbatim>\<open>_rx_loop\<close>. An exception that leaves
  the loop reaches \<^verbatim>\<open>finally: self.close()\<close>.\<close>

function parse_commands ::
  "(int \<Rightarrow> int \<Rightarrow> byte list \<Rightarrow> 'w \<Rightarrow> error + 'w) option \<Rightarrow> int \<Rightarrow> gvret_client \<times> 'w
     \<Rightarrow> gvret_client \<times> 'w" where
  "parse_commands tx_func us (s, w) =
     (if \<not> binary s then (s, w)
      else
        let s1 = s\<lparr>buf := resync (buf s)\<rparr>
        in if length (buf s1) < 2 \<or> buf s1 ! 0 \<noteq> 0xF1 then (s1, w)
           else
             let cmd = buf s1 ! 1
             in if cmd = 0x00
                then (case try_consume_send_frame tx_func s1 w of
                        (ok, s2, Inl err) \<Rightarrow> (close s2, w)
                      | (ok, s2, Inr w2) \<Rightarrow>
                          if ok then parse_commands tx_func us (s2, w2) else (s2, w2))
                else
                  let s2 = s1\<lparr>buf := drop 2 (buf s1)\<rparr>
                  in if cmd = 0x07 then parse_commands tx_func us (reply_dev_info s2, w)
                     else if cmd = 0x06
                     then (case reply_canbus_params s2 of
                             Inl err \<Rightarrow> (close s2, w)
                           | Inr s3 \<Rightarrow> parse_commands tx_func us (s3, w))
                     else if cmd = 0x0C then parse_commands tx_func us (reply_num_buses s2, w)
                     else if cmd = 0x01 then parse_commands tx_func us (reply_timebase us s2, w)
                     else if cmd = 0x09 then parse_commands tx_func us (reply_keepalive s2, w)
                     else parse_commands tx_func us (s2, w))"
  by pat_completeness auto
termination
  apply (relation "measure (\<lambda>(tx_func, us, s, w). length (buf s))")
   apply simp
  apply ((auto simp: try_consume_send_frame_def Let_def reply_dev_info_def reply_canbus_params_def
        reply_num_buses_def reply_timebase_def reply_keepalive_def send_def resync_def
        split: if_splits option.splits sum.splits)[1];
      (rule order.strict_trans2 [OF _ length_dropWhile_le [of "\<lambda>b::byte. b \<noteq> 0xF1"]]; simp))+
  done

text \<open>One pass of \<^verbatim>\<open>while self.alive\<close> in \<^verbatim>\<open>_rx_loop\<close> with the chunk that
  \<^verbatim>\<open>recv\<close> returned (an empty chunk ends the session).\<close>

definition rx_chunk ::
  "(int \<Rightarrow> int \<Rightarrow> byte list \<Rightarrow> 'w \<Rightarrow> error + 'w) option \<Rightarrow> int \<Rightarrow> byte list
     \<Rightarrow> gvret_client \<times> 'w \<Rightarrow> gvret_client \<times> 'w" where
  "rx_chunk tx_func us chunk sw =
     (case sw of (s, w) \<Rightarrow>
        if \<not> alive s then (s, w)
        else if chunk = [] then (close s, w)
        else parse_commands tx_func us (handshake (s\<lparr>buf := buf s @ chunk\<rparr>), w))"

fun rx_chunks ::
  "(int \<Rightarrow> int \<Rightarrow> byte list \<Rightarrow> 'w \<Rightarrow> error + 'w) option \<Rightarrow> int \<Rightarrow> byte list list
     \<Rightarrow> gvret_client \<times> 'w \<Rightarrow> gvret_client \<times> 'w" where
  "rx_chunks tx_func us [] sw = sw"
| "rx_chunks tx_func us (c # cs) sw = rx_chunks tx_func us cs (rx_chunk tx_func us c sw)"

definition send_frame ::
  "gvret_client \<Rightarrow> int \<Rightarrow> int \<Rightarrow> int \<Rightarrow> byte list \<Rightarrow> bool \<Rightarrow> error + gvret_client" where
  "send_frame s us can_id bus data_bytes is_fd =
     (if \<not> binary s then Inr s
      else
        let data_len0 = int (length data_bytes);
            data_len = (if is_fd then min data_len0 64 else min data_len0 8);
            dlc = (if is_fd then len_to_dlc data_len else data_len);
            is_eff = (can_id AND CAN_EFF_FLAG \<noteq> 0);
            arb_id = can_id AND (if is_eff then CAN_EFF_MASK else CAN_SFF_MASK);
            gvret_id = arb_id OR (if is_eff then 0x80000000 else 0);
            ts_us = us AND 0xFFFFFFFF;
            bus_and_dlc = push_bit 4 (bus AND 0x0F) OR (dlc AND 0x0F)
        in case to_bytes 4 ts_us of
             Inl err \<Rightarrow> Inl err
           | Inr tsb \<Rightarrow>
               (case to_bytes 4 gvret_id of
                  Inl err \<Rightarrow> Inl err
                | Inr idb \<Rightarrow>
                    if 0 \<le> bus_and_dlc \<and> bus_and_dlc < 256
                    then Inr (send s ([0xF1, 0x00] @ tsb @ idb @ [word_of_int bus_and_dlc]
                                      @ py_upto data_len data_bytes @ [0x00]))
                    else Inl ValueError))"

subsection \<open>The server: kernel frame layouts, transmit and receive\<close>

text \<open>\<^verbatim>\<open>CanTcpServer\<close>. \<open>can_socks ! i\<close> is the sequence of frames written to the
  raw socket of interface \<open>i\<close>, oldest first; \<open>iface_speeds\<close> are the nominal bit
  rates that \<^verbatim>\<open>detect_bitrates\<close> found, one for each interface.\<close>

record can_tcp_server =
  bus_offset :: int
  can_fd :: bool
  can_socks :: "byte list list list"
  iface_speeds :: "int list"
  pg_writer :: "postgres_writer option"
  srv_default_dir :: string

text \<open>\<^verbatim>\<open>self.bus_count = self.bus_offset + len(self.can_socks)\<close>, and the session that
  \<^verbatim>\<open>_accept\<close> creates from it.\<close>

definition srv_bus_count :: "can_tcp_server \<Rightarrow> int" where
  "srv_bus_count srv = bus_offset srv + int (length (can_socks srv))"

definition accept :: "can_tcp_server \<Rightarrow> gvret_client" where
  "accept srv = GVRETClient (srv_bus_count srv) (iface_speeds srv)"

text \<open>The frame that \<^verbatim>\<open>_tx_can\<close> packs, with the \<^verbatim>\<open>dlc\<close>, \<^verbatim>\<open>data_len\<close> and
  \<^verbatim>\<open>is_fd\<close> it goes on with.\<close>

definition tx_can_pack ::
  "bool \<Rightarrow> int \<Rightarrow> byte list \<Rightarrow> bool \<Rightarrow> error + (byte list \<times> int \<times> int \<times> bool)" where
  "tx_can_pack fd_mode can_id data_bytes is_fd =
     (let data_len0 = int (length data_bytes)
      in if is_fd \<and> fd_mode
         then
           let data_len = min data_len0 64;
               dlc = len_to_dlc data_len
           in (case pack_I can_id of
                 Inl err \<Rightarrow> Inl err
               | Inr idb \<Rightarrow>
                   (case pack_B data_len of
                      Inl err \<Rightarrow> Inl err
                    | Inr lenb \<Rightarrow>
                        Inr (idb @ lenb @ [0, 0, 0] @ pack_s 64 (ljust 64 data_bytes),
                             dlc, data_len, True)))
         else
           let dlc = min data_len0 8
           in (case pack_I can_id of
                 Inl err \<Rightarrow> Inl err
               | Inr idb \<Rightarrow>
                   (case pack_B dlc of
                      Inl err \<Rightarrow> Inl err
                    | Inr dlcb \<Rightarrow>
                        Inr (idb @ dlcb @ [0, 0, 0] @ pack_s 8 (ljust 8 (take 8 data_bytes)),
                             dlc, data_len0, False))))"

text \<open>\<^verbatim>\<open>_tx_can\<close>; \<open>now\<close> is the timestamp of the row it enqueues.\<close>

definition tx_can ::
  "int \<Rightarrow> bool \<Rightarrow> int \<Rightarrow> int \<Rightarrow> byte list \<Rightarrow> can_tcp_server \<Rightarrow> error + can_tcp_server" where
  "tx_can now is_fd bus can_id data_bytes srv =
     (let sock_idx = bus - bus_offset srv
      in if \<not> (0 \<le> sock_idx \<and> sock_idx < int (length (can_socks srv))) then Inr srv
         else
           case tx_can_pack (can_fd srv) can_id data_bytes is_fd of
             Inl err \<Rightarrow> Inl err
           | Inr (frame, dlc, data_len, is_fd1) \<Rightarrow>
               let i = nat sock_idx;
                   srv1 = srv\<lparr>can_socks := (can_socks srv)[i := can_socks srv ! i @ [frame]]\<rparr>
               in case pg_writer srv1 of
                    None \<Rightarrow> Inr srv1
                  | Some pg \<Rightarrow>
                      Inr (srv1\<lparr>pg_writer :=
                                  Some (enqueue pg now can_id dlc (py_upto data_len data_bytes)
                                          bus (Some ''tx'') is_fd1)\<rparr>))"

text \<open>The local variables that \<^verbatim>\<open>run\<close> unpacks from one received kernel frame
  (\<^verbatim>\<open>run\<close> stops reading the socket on an empty one): 72 bytes are an FD frame, any
  other length is unpacked as a classic frame, and \<^verbatim>\<open>struct.unpack_from\<close> raises on
  fewer than 5 bytes.\<close>

record frame =
  fr_can_id :: int
  fr_data_len :: int
  fr_data :: "byte list"
  fr_dlc :: int
  fr_fd_flags :: int
  fr_is_fd :: bool

definition run_unpack :: "byte list \<Rightarrow> error + frame" where
  "run_unpack fb =
     (if length fb = 72
      then
        let can_id = from_bytes_le (py_slice 0 4 fb);
            data_len = uint (fb ! 4);
            fd_flags = uint (fb ! 5)
        in Inr \<lparr>fr_can_id = can_id, fr_data_len = data_len,
                 fr_data = py_slice 8 (8 + nat data_len) fb,
                 fr_dlc = len_to_dlc data_len, fr_fd_flags = fd_flags, fr_is_fd = True\<rparr>
      else if length fb < 5 then Inl StructError
      else
        let can_id = from_bytes_le (py_slice 0 4 fb);
            dlc = uint (fb ! 4);
            data_len = min dlc 8
        in Inr \<lparr>fr_can_id = can_id, fr_data_len = data_len,
                 fr_data = py_slice 8 (8 + nat data_len) fb,
                 fr_dlc = dlc, fr_fd_flags = 0, fr_is_fd = False\<rparr>)"

text \<open>The semantic fields of a frame, read from the identifier word and the FD flags as
  \<^verbatim>\<open>format_candump_line\<close> reads them.\<close>

definition is_ext :: "int \<Rightarrow> bool" where "is_ext can_id = (can_id AND CAN_EFF_FLAG \<noteq> 0)"
definition is_rtr :: "int \<Rightarrow> bool" where "is_rtr can_id = (can_id AND CAN_RTR_FLAG \<noteq> 0)"
definition is_err :: "int \<Rightarrow> bool" where "is_err can_id = (can_id AND CAN_ERR_FLAG \<noteq> 0)"
definition arb_id :: "int \<Rightarrow> int" where
  "arb_id can_id = can_id AND (if is_ext can_id then CAN_EFF_MASK else CAN_SFF_MASK)"
definition brs :: "frame \<Rightarrow> bool" where "brs f = (fr_is_fd f \<and> fr_fd_flags f AND CANFD_BRS \<noteq> 0)"
definition esi :: "frame \<Rightarrow> bool" where "esi f = (fr_is_fd f \<and> fr_fd_flags f AND CANFD_ESI \<noteq> 0)"

subsection \<open>Invariants, scenarios and example configurations\<close>

text \<open>The invariants of a frame, on the fields that \<^verbatim>\<open>run\<close> unpacks: a 32-bit
  identifier word; a payload as long as the data length, except that a remote-transmission
  frame has an empty payload whatever its data length; a data length from 0 to 8 (classic)
  or one of the FD lengths; the DLC that belongs to the length; and FD flags made of BRS
  and ESI only.\<close>

definition frame_ok :: "frame \<Rightarrow> bool" where
  "frame_ok f =
     (0 \<le> fr_can_id f \<and> fr_can_id f < 2 ^ 32
      \<and> (if is_rtr (fr_can_id f) then fr_data f = [] \<and> 0 \<le> fr_data_len f
         else fr_data_len f = int (length (fr_data f)))
      \<and> (if fr_is_fd f
         then fr_data_len f \<in> {0, 1, 2, 3, 4, 5, 6, 7, 8, 12, 16, 20, 24, 32, 48, 64}
              \<and> fr_dlc f = len_to_dlc (fr_data_len f)
              \<and> 0 \<le> fr_fd_flags f \<and> fr_fd_flags f < 4
         else fr_data_len f \<le> 8 \<and> fr_dlc f = fr_data_len f \<and> fr_fd_flags f = 0))"

text \<open>The handshake scenario: the bytes \<open>XX E7 E7 F1 09\<close>, and the session after the
  first \<open>k\<close> of them have been received by a session that started as \<open>s0\<close>.\<close>

definition hs_bytes :: "byte \<Rightarrow> byte list" where
  "hs_bytes xx = [xx, 0xE7, 0xE7, 0xF1, 0x09]"

definition hs_state :: "gvret_client \<Rightarrow> byte \<Rightarrow> nat \<Rightarrow> gvret_client" where
  "hs_state s0 xx k =
     (if k = 0 then s0
      else if k = 1 then s0\<lparr>buf := [xx]\<rparr>
      else if k = 2 then s0\<lparr>buf := [xx, 0xE7]\<rparr>
      else if k = 3 then s0\<lparr>binary := True, buf := []\<rparr>
      else if k = 4 then s0\<lparr>binary := True, buf := [0xF1]\<rparr>
      else s0\<lparr>binary := True, buf := [], sent := [0xF1, 0x09, 0xDE, 0xAD]\<rparr>)"

text \<open>An example configuration: two classic interfaces, bus offset 0, ingest enabled with
  the default sizes; and a session of that server that has completed the handshake.\<close>

definition example_server :: can_tcp_server where
  "example_server =
     \<lparr>bus_offset = 0, can_fd = False, can_socks = [[], []], iface_speeds = [500000, 500000],
      pg_writer = Some (PostgresWriter 500 50000 ''rx'' 1000 50 (DiskCache 1000)),
      srv_default_dir = ''rx''\<rparr>"

definition example_client :: gvret_client where
  "example_client = (accept example_server)\<lparr>binary := True\<rparr>"

text \<open>A configuration with one interface and bus offset 1: the interface is bus 1.\<close>

definition offset_server :: can_tcp_server where
  "offset_server =
     \<lparr>bus_offset = 1, can_fd = False, can_socks = [[]], iface_speeds = [500000],
      pg_writer = None, srv_default_dir = ''rx''\<rparr>"

text \<open>The pair \<open>E7 E7\<close> occurs in the buffer at index \<open>i\<close>.\<close>

definition occurs_at :: "byte list \<Rightarrow> nat \<Rightarrow> bool" where
  "occurs_at b i = (Suc i < length b \<and> b ! i = 0xE7 \<and> b ! Suc i = 0xE7)"

subsection \<open>Runs of the ingest pipeline\<close>

text \<open>What happens to a writer: a producer calls \<^verbatim>\<open>enqueue\<close>, or the worker makes
  one pass of its loop in the environment given. Queue operations are atomic, and a pass
  of the worker is taken as one step between the producers' calls.\<close>

datatype event =
    Enqueue int int int "byte list" int "string option" bool
  | Worker env

fun step :: "event \<Rightarrow> postgres_writer \<Rightarrow> postgres_writer" where
  "step (Enqueue ts can_id dlc data_bytes bus dir_arg is_fd) w =
     enqueue w ts can_id dlc data_bytes bus dir_arg is_fd"
| "step (Worker e) w = worker_pass e w"

fun run :: "event list \<Rightarrow> postgres_writer \<Rightarrow> postgres_writer" where
  "run [] w = w"
| "run (ev # evs) w = run evs (step ev w)"

text \<open>The number of \<^verbatim>\<open>enqueue\<close> calls of a run, and the number of them that found
  the queue full.\<close>

fun attempts :: "event list \<Rightarrow> int" where
  "attempts [] = 0"
| "attempts (Enqueue ts can_id dlc data_bytes bus dir_arg is_fd # evs) = 1 + attempts evs"
| "attempts (Worker e # evs) = attempts evs"

fun rejected :: "event list \<Rightarrow> postgres_writer \<Rightarrow> int" where
  "rejected [] w = 0"
| "rejected (ev # evs) w =
     (case ev of
        Enqueue ts can_id dlc data_bytes bus dir_arg is_fd \<Rightarrow> (if queue_full w then 1 else 0)
      | Worker e \<Rightarrow> 0)
     + rejected evs (step ev w)"

text \<open>The number of entries (rows) the in-memory queue holds.\<close>

fun queued :: "item list \<Rightarrow> int" where
  "queued [] = 0"
| "queued (Wake # its) = queued its"
| "queued (Row r # its) = 1 + queued its"

text \<open>A pass fails while draining: it reaches the cache with a live connection, the cache
  holds rows, and executing the batch read from it raises, or deleting that batch from the
  cache does. \<open>drain_ok\<close>: no pass of the run does.\<close>

definition drain_fails :: "env \<Rightarrow> postgres_writer \<Rightarrow> bool" where
  "drain_fails e w =
     (let w1 = maybe_flush_queue_overflow e w;
          (ids, b) = read_batch (disk_cache w1) (batch_size w1)
      in (conn w1 \<or> connect_ok e) \<and> \<not> is_empty (disk_cache w1)
         \<and> \<not> (execute_ok e b \<and> delete_batch e (disk_cache w1) ids \<noteq> None))"

fun drain_ok :: "event list \<Rightarrow> postgres_writer \<Rightarrow> bool" where
  "drain_ok [] w = True"
| "drain_ok (ev # evs) w =
     ((case ev of
         Enqueue ts can_id dlc data_bytes bus dir_arg is_fd \<Rightarrow> True
       | Worker e \<Rightarrow> \<not> drain_fails e w)
      \<and> drain_ok evs (step ev w))"

text \<open>Environments: everything works (an SQLite library that takes 32766 parameters, a
  cache file of 4096 bytes); the SQL store cannot be reached; the connection is made but
  executing a batch fails; an SQLite library that takes 999 parameters; the cache file has
  1000 MiB, the default maximum; both that and no SQL store.\<close>

definition env_up :: env where
  "env_up = \<lparr>connect_ok = True, execute_ok = (\<lambda>rows. True), st_size = (\<lambda>c. Some 4096),
             write_ok = (\<lambda>c rows. True),
             delete_ok = (\<lambda>c ids. int (length ids) \<le> 32766)\<rparr>"

definition env_down :: env where
  "env_down = env_up\<lparr>connect_ok := False\<rparr>"

definition env_db_error :: env where
  "env_db_error = env_up\<lparr>execute_ok := (\<lambda>rows. False)\<rparr>"

definition env_limit_999 :: env where
  "env_limit_999 = env_up\<lparr>delete_ok := (\<lambda>c ids. int (length ids) \<le> 999)\<rparr>"

definition env_full :: env where
  "env_full = env_up\<lparr>st_size := (\<lambda>c. Some 1048576000)\<rparr>"

definition env_full_down :: env where
  "env_full_down = env_full\<lparr>connect_ok := False\<rparr>"

text \<open>The cache's identifiers are distinct and none exceeds the AUTOINCREMENT counter.\<close>

definition cache_ok :: "disk_cache \<Rightarrow> bool" where
  "cache_ok c = (distinct (map fst (frames c)) \<and> (\<forall>i \<in> set (map fst (frames c)). i \<le> seq c))"

text \<open>Entries accounted for outside the queue (written, dropped or in the cache), and in
  total; \<open>same_cfg\<close>: a step leaves the configuration and the enqueue counter alone
  and does not lower the drop counter.\<close>

definition acct :: "postgres_writer \<Rightarrow> int" where
  "acct w = count_written w + count_dropped w + count (disk_cache w)"

definition same_cfg :: "postgres_writer \<Rightarrow> postgres_writer \<Rightarrow> bool" where
  "same_cfg w w' = (batch_size w' = batch_size w \<and> maxsize w' = maxsize w
     \<and> queue_flush_pct w' = queue_flush_pct w \<and> count_enqueued w' = count_enqueued w
     \<and> count_dropped w \<le> count_dropped w')"

definition total :: "postgres_writer \<Rightarrow> int" where
  "total w = acct w + queued (q w)"

text \<open>A row, as \<^verbatim>\<open>enqueue\<close> builds it.\<close>

definition example_row :: row where
  "example_row =
     \<lparr>r_ts = 1, r_extended = False, r_is_fd = False, r_arb_id = 0x123, r_id_hex = None,
      r_dlc = 1, r_data = [0xAA], r_bus = 0, r_dir = ''rx''\<rparr>"

section \<open>Properties\<close>

subsection \<open>DLC mapping\<close>

lemma dlc_range_cases:
  "0 \<le> (D::int) \<Longrightarrow> D \<le> 15 \<Longrightarrow> D \<in> {0, 1, 2, 3, 4, 5, 6, 7, 8, 9, 10, 11, 12, 13, 14, 15}"
  by (simp, arith)

lemma len_to_dlc_above_8:
  "8 < L \<Longrightarrow> len_to_dlc L =
     (if L \<le> 12 then 9 else if L \<le> 16 then 10 else if L \<le> 20 then 11
      else if L \<le> 24 then 12 else if L \<le> 32 then 13 else if L \<le> 48 then 14 else 15)"
  by (simp add: len_to_dlc_def CAN_FD_DLC_LEN_def)

lemma dlc_to_len_fd_table:
  "0 \<le> d \<Longrightarrow> d \<le> 15 \<Longrightarrow> dlc_to_len d True =
     (if d \<le> 8 then d else if d = 9 then 12 else if d = 10 then 16 else if d = 11 then 20
      else if d = 12 then 24 else if d = 13 then 32 else if d = 14 then 48 else 64)"
  using dlc_range_cases [of d]
  by (auto simp: dlc_to_len_def CAN_FD_DLC_LEN_def)

lemma len_dlc_len:
  "N \<in> {0, 1, 2, 3, 4, 5, 6, 7, 8, 12, 16, 20, 24, 32, 48, 64} \<Longrightarrow>
     dlc_to_len (len_to_dlc N) True = N"
  by (auto simp: dlc_to_len_def len_to_dlc_def CAN_FD_DLC_LEN_def)

lemma dlc_len_dlc: "0 \<le> D \<Longrightarrow> D \<le> 15 \<Longrightarrow> len_to_dlc (dlc_to_len D True) = D"
  using dlc_range_cases [of D]
  by (auto simp: dlc_to_len_def len_to_dlc_def CAN_FD_DLC_LEN_def)

lemma len_to_dlc_smallest:
  assumes "0 \<le> L" "L \<le> 64"
  shows "0 \<le> len_to_dlc L \<and> len_to_dlc L \<le> 15 \<and> L \<le> dlc_to_len (len_to_dlc L) True
         \<and> (\<forall>d. 0 \<le> d \<and> d < len_to_dlc L \<longrightarrow> dlc_to_len d True < L)"
proof (cases "L \<le> 8")
  case True
  with assms show ?thesis by (simp add: len_to_dlc_def dlc_to_len_def)
next
  case False
  then have "8 < L" by simp
  with assms show ?thesis
    by (simp add: len_to_dlc_above_8) (intro conjI impI allI; simp add: dlc_to_len_fd_table)
qed

text \<open>
  C4. For every length \<open>N\<close> in \<open>{0..8, 12, 16, 20, 24, 32, 48, 64}\<close>, mapping the length
  to its DLC and back (FD) gives \<open>N\<close>; for every DLC \<open>D\<close> in \<open>0..15\<close>, mapping it to
  its FD length and back gives \<open>D\<close>; and for every payload length \<open>L\<close> with
  \<open>0 \<le> L \<le> 64\<close>, \<open>len_to_dlc L\<close> is the smallest DLC of \<open>0..15\<close> whose FD length is at
  least \<open>L\<close>.
\<close>

theorem dlc_mapping:
  "(N \<in> {0, 1, 2, 3, 4, 5, 6, 7, 8, 12, 16, 20, 24, 32, 48, 64} \<longrightarrow>
      dlc_to_len (len_to_dlc N) True = N)
   \<and> (0 \<le> D \<and> D \<le> 15 \<longrightarrow> len_to_dlc (dlc_to_len D True) = D)
   \<and> (0 \<le> L \<and> L \<le> 64 \<longrightarrow>
        0 \<le> len_to_dlc L \<and> len_to_dlc L \<le> 15 \<and> L \<le> dlc_to_len (len_to_dlc L) True
        \<and> (\<forall>d. 0 \<le> d \<and> d < len_to_dlc L \<longrightarrow> dlc_to_len d True < L))"
  using len_dlc_len [of N] dlc_len_dlc [of D] len_to_dlc_smallest [of L] by blast

theorem dlc_mapping_witness:
  "(12 :: int) \<in> {0, 1, 2, 3, 4, 5, 6, 7, 8, 12, 16, 20, 24, 32, 48, 64}
   \<and> dlc_to_len (len_to_dlc 12) True = 12
   \<and> (0 :: int) \<le> 13 \<and> (13 :: int) \<le> 15 \<and> len_to_dlc (dlc_to_len 13 True) = 13
   \<and> (0 :: int) \<le> 17 \<and> (17 :: int) \<le> 64
   \<and> len_to_dlc 17 = 11 \<and> dlc_to_len 11 True = 20 \<and> dlc_to_len 10 True = 16"
  using dlc_mapping [of 12 13 17]
  by (simp add: len_to_dlc_def dlc_to_len_def CAN_FD_DLC_LEN_def)

subsection \<open>Kernel layout round trip\<close>

lemma length_le_bytes [simp]: "length (le_bytes n x) = n"
  by (induction n arbitrary: x) auto

lemma le_bytes_4:
  "le_bytes 4 x =
     [word_of_int x, word_of_int (x div 256), word_of_int (x div 65536),
      word_of_int (x div 16777216)]"
proof -
  have "le_bytes (Suc (Suc (Suc (Suc 0)))) x =
     [word_of_int x, word_of_int (x div 256), word_of_int (x div 65536),
      word_of_int (x div 16777216)]"
    by (simp add: zdiv_zmult2_eq [symmetric])
  then show ?thesis by (simp add: numeral_eq_Suc)
qed

lemma from_bytes_le_bytes: "0 \<le> x \<Longrightarrow> x < 256 ^ n \<Longrightarrow> from_bytes_le (le_bytes n x) = x"
proof (induction n arbitrary: x)
  case 0
  then show ?case by simp
next
  case (Suc n)
  from Suc.prems have "0 \<le> x div 256" "x div 256 < 256 ^ n"
    by (simp_all add: div_less_iff_less_mult mult.commute)
  with Suc.IH have "from_bytes_le (le_bytes n (x div 256)) = x div 256" by simp
  then show ?case by (simp add: uint_word_of_int take_bit_eq_mod)
qed

lemma uint_byte_of_int: "0 \<le> x \<Longrightarrow> x < 256 \<Longrightarrow> uint (word_of_int x :: byte) = x"
  by (simp add: uint_word_of_int take_bit_eq_mod)

lemma uint_byte_of_nat: "n < 256 \<Longrightarrow> uint (word_of_nat n :: byte) = int n"
  by (simp add: uint_nat unat_of_nat)

lemma unat_byte_of_nat: "n < 256 \<Longrightarrow> unat (word_of_nat n :: byte) = n"
  by (simp add: unat_of_nat)

lemma unpack_header:
  "py_slice 0 4 (le_bytes 4 x @ rest) = le_bytes 4 x"
  "(le_bytes 4 x @ l # a # b # c # rest) ! 4 = l"
  "(le_bytes 4 x @ l # a # b # c # rest) ! 5 = a"
  "py_slice 8 (8 + n) (le_bytes 4 x @ l # a # b # c # rest) = take n rest"
  by (simp_all add: py_slice_def nth_append)

lemma fd_len_le_64:
  "(n::int) \<in> {0, 1, 2, 3, 4, 5, 6, 7, 8, 12, 16, 20, 24, 32, 48, 64} \<Longrightarrow> 0 \<le> n \<and> n \<le> 64"
  by auto

lemma len_to_dlc_0: "len_to_dlc 0 = 0"
  by (simp add: len_to_dlc_def CAN_FD_DLC_LEN_def)

text \<open>
  C3 (as amended). For every frame that satisfies the invariants, packing it as
  \<^verbatim>\<open>_tx_can\<close> does (the 72-byte FD layout when the frame is FD and the server runs in
  FD mode, the 16-byte classic layout for a classic frame) and unpacking the bytes as
  \<^verbatim>\<open>run\<close> does gives back the same identifier word (so the same arbitration
  identifier and extended, RTR and error flags), FD flag and payload, and, unless the frame
  is a remote-transmission frame, the same data length and DLC. \<^verbatim>\<open>_tx_can\<close> takes
  the length from the payload, so a remote-transmission frame, whose payload is empty, comes
  back with data length 0 and DLC 0 whatever its data length was. The FD flags byte is
  always written as 0, so BRS and ESI come back clear.
\<close>

theorem kernel_round_trip:
  assumes ok: "frame_ok f" and mode: "fr_is_fd f \<longrightarrow> fd_mode"
  shows "\<exists>fb. tx_can_pack fd_mode (fr_can_id f) (fr_data f) (fr_is_fd f)
                 = Inr (fb, if is_rtr (fr_can_id f) then 0 else fr_dlc f,
                        if is_rtr (fr_can_id f) then 0 else fr_data_len f, fr_is_fd f)
              \<and> length fb = (if fr_is_fd f then 72 else 16)
              \<and> run_unpack fb
                  = Inr (if is_rtr (fr_can_id f)
                         then f\<lparr>fr_fd_flags := 0, fr_data_len := 0, fr_dlc := 0\<rparr>
                         else f\<lparr>fr_fd_flags := 0\<rparr>)"
proof -
  from ok have id: "0 \<le> fr_can_id f" "fr_can_id f < 2 ^ 32"
    by (simp_all add: frame_ok_def)
  then have idr: "from_bytes_le (le_bytes 4 (fr_can_id f)) = fr_can_id f"
    by (intro from_bytes_le_bytes) simp_all
  show ?thesis
  proof (cases "is_rtr (fr_can_id f)")
    case True
    with ok have data: "fr_data f = []" by (simp add: frame_ok_def)
    show ?thesis
    proof (cases "fr_is_fd f")
      case fd: True
      show ?thesis using True fd mode data id idr
        by (simp add: tx_can_pack_def pack_I_def pack_B_def pack_s_def ljust_def run_unpack_def
            unpack_header len_to_dlc_0 Let_def)
    next
      case False
      show ?thesis using True False data id idr ok
        by (simp add: tx_can_pack_def pack_I_def pack_B_def pack_s_def ljust_def run_unpack_def
            unpack_header frame_ok_def Let_def)
    qed
  next
    case False
    with ok have dl: "fr_data_len f = int (length (fr_data f))" by (simp add: frame_ok_def)
    show ?thesis
    proof (cases "fr_is_fd f")
      case fd: True
      with ok have mem: "fr_data_len f \<in> {0, 1, 2, 3, 4, 5, 6, 7, 8, 12, 16, 20, 24, 32, 48, 64}"
        by (auto simp: frame_ok_def)
      from ok fd dl have dlc: "fr_dlc f = len_to_dlc (int (length (fr_data f)))"
        by (simp add: frame_ok_def)
      from fd_len_le_64 [OF mem] dl have len: "int (length (fr_data f)) \<le> 64" by simp
      from len have nat_len: "length (fr_data f) \<le> 64" by simp
      show ?thesis using False fd mode len dl dlc id idr nat_len
        by (simp add: tx_can_pack_def pack_I_def pack_B_def pack_s_def ljust_def run_unpack_def
            unpack_header uint_byte_of_int uint_byte_of_nat unat_byte_of_nat Let_def)
    next
      case cl: False
      with ok dl have len: "int (length (fr_data f)) \<le> 8"
        and dlc: "fr_dlc f = int (length (fr_data f))" and fl: "fr_fd_flags f = 0"
        by (simp_all add: frame_ok_def)
      from len have nat_len: "length (fr_data f) \<le> 8" by simp
      show ?thesis using False cl len dl dlc id idr nat_len fl
        by (simp add: tx_can_pack_def pack_I_def pack_B_def pack_s_def ljust_def run_unpack_def
            unpack_header uint_byte_of_int uint_byte_of_nat unat_byte_of_nat Let_def)
    qed
  qed
qed

theorem kernel_round_trip_witness:
  "frame_ok \<lparr>fr_can_id = 0x80000123, fr_data_len = 3, fr_data = [0xAA, 0xBB, 0xCC], fr_dlc = 3,
             fr_fd_flags = 0, fr_is_fd = False\<rparr>
   \<and> \<not> is_rtr 0x80000123
   \<and> tx_can_pack False 0x80000123 [0xAA, 0xBB, 0xCC] False
       = Inr ([0x23, 0x01, 0, 0x80, 3, 0, 0, 0, 0xAA, 0xBB, 0xCC, 0, 0, 0, 0, 0], 3, 3, False)
   \<and> run_unpack [0x23, 0x01, 0, 0x80, 3, 0, 0, 0, 0xAA, 0xBB, 0xCC, 0, 0, 0, 0, 0]
       = Inr \<lparr>fr_can_id = 0x80000123, fr_data_len = 3, fr_data = [0xAA, 0xBB, 0xCC],
               fr_dlc = 3, fr_fd_flags = 0, fr_is_fd = False\<rparr>"
proof -
  have rtr: "\<not> is_rtr 0x80000123" by (simp add: is_rtr_def CAN_RTR_FLAG_def)
  have ok: "frame_ok \<lparr>fr_can_id = 0x80000123, fr_data_len = 3, fr_data = [0xAA, 0xBB, 0xCC],
             fr_dlc = 3, fr_fd_flags = 0, fr_is_fd = False\<rparr>"
    by (simp add: frame_ok_def rtr)
  have pack: "tx_can_pack False 0x80000123 [0xAA, 0xBB, 0xCC] False
       = Inr ([0x23, 0x01, 0, 0x80, 3, 0, 0, 0, 0xAA, 0xBB, 0xCC, 0, 0, 0, 0, 0], 3, 3, False)"
    by code_simp
  from kernel_round_trip [OF ok, of False] pack ok rtr show ?thesis by simp
qed

text \<open>
  C3 as stated fails on the BRS and ESI flags, on an FD frame sent by a server that does
  not run in FD mode, and on the data length of a remote-transmission frame: a valid FD
  frame with BRS set comes back with BRS clear, a valid FD frame of 12 bytes is packed
  without FD mode as a classic frame of 8 bytes, and a remote-transmission frame of data
  length 3 comes back with data length 0 and DLC 0.
\<close>

theorem kernel_round_trip_counterexample:
  "frame_ok \<lparr>fr_can_id = 0x123, fr_data_len = 0, fr_data = [], fr_dlc = 0,
             fr_fd_flags = 1, fr_is_fd = True\<rparr>
   \<and> brs \<lparr>fr_can_id = 0x123, fr_data_len = 0, fr_data = [], fr_dlc = 0,
           fr_fd_flags = 1, fr_is_fd = True\<rparr>
   \<and> tx_can_pack True 0x123 [] True
       = Inr ([0x23, 0x01, 0, 0, 0, 0, 0, 0] @ replicate 64 0, 0, 0, True)
   \<and> run_unpack ([0x23, 0x01, 0, 0, 0, 0, 0, 0] @ replicate 64 0)
       = Inr \<lparr>fr_can_id = 0x123, fr_data_len = 0, fr_data = [], fr_dlc = 0,
               fr_fd_flags = 0, fr_is_fd = True\<rparr>
   \<and> \<not> brs \<lparr>fr_can_id = 0x123, fr_data_len = 0, fr_data = [], fr_dlc = 0,
               fr_fd_flags = 0, fr_is_fd = True\<rparr>
   \<and> frame_ok \<lparr>fr_can_id = 0x123, fr_data_len = 12,
                fr_data = [0, 1, 2, 3, 4, 5, 6, 7, 8, 9, 10, 11], fr_dlc = 9,
                fr_fd_flags = 0, fr_is_fd = True\<rparr>
   \<and> tx_can_pack False 0x123 [0, 1, 2, 3, 4, 5, 6, 7, 8, 9, 10, 11] True
       = Inr ([0x23, 0x01, 0, 0, 8, 0, 0, 0, 0, 1, 2, 3, 4, 5, 6, 7], 8, 12, False)
   \<and> run_unpack [0x23, 0x01, 0, 0, 8, 0, 0, 0, 0, 1, 2, 3, 4, 5, 6, 7]
       = Inr \<lparr>fr_can_id = 0x123, fr_data_len = 8, fr_data = [0, 1, 2, 3, 4, 5, 6, 7],
               fr_dlc = 8, fr_fd_flags = 0, fr_is_fd = False\<rparr>
   \<and> frame_ok \<lparr>fr_can_id = 0x40000123, fr_data_len = 3, fr_data = [], fr_dlc = 3,
                fr_fd_flags = 0, fr_is_fd = False\<rparr>
   \<and> is_rtr 0x40000123
   \<and> tx_can_pack False 0x40000123 [] False
       = Inr ([0x23, 0x01, 0, 0x40, 0, 0, 0, 0, 0, 0, 0, 0, 0, 0, 0, 0], 0, 0, False)
   \<and> run_unpack [0x23, 0x01, 0, 0x40, 0, 0, 0, 0, 0, 0, 0, 0, 0, 0, 0, 0]
       = Inr \<lparr>fr_can_id = 0x40000123, fr_data_len = 0, fr_data = [], fr_dlc = 0,
               fr_fd_flags = 0, fr_is_fd = False\<rparr>"
proof -
  have rtr: "\<not> is_rtr 0x123" "is_rtr 0x40000123" by (simp_all add: is_rtr_def CAN_RTR_FLAG_def)
  have r8: "replicate 8 (0 :: byte) = [0, 0, 0, 0, 0, 0, 0, 0]" by code_simp
  show ?thesis
    by (simp add: frame_ok_def rtr r8 brs_def CANFD_BRS_def tx_can_pack_def pack_I_def pack_B_def
        pack_s_def ljust_def le_bytes_4 run_unpack_def py_slice_def len_to_dlc_def
        CAN_FD_DLC_LEN_def nth_append)
qed

subsection \<open>The frame pushed to a client\<close>

lemma and_low_mask: "(x::int) AND (2 ^ n - 1) = x mod 2 ^ n"
  by (simp add: take_bit_eq_mask mask_eq_exp_minus_1 flip: take_bit_eq_mod)

lemma and_masks:
  "(x::int) AND 0xFFFFFFFF = x mod 2 ^ 32"
  "(x::int) AND 0x1FFFFFFF = x mod 2 ^ 29"
  "(x::int) AND 0x7FF = x mod 2 ^ 11"
  "(x::int) AND 0x0F = x mod 2 ^ 4"
  "(x::int) AND 0xFF = x mod 2 ^ 8"
  using and_low_mask [of x 32] and_low_mask [of x 29] and_low_mask [of x 11] and_low_mask [of x 4]
    and_low_mask [of x 8]
  by simp_all

lemma and_eff_flag: "((x::int) AND 0x80000000 \<noteq> 0) = bit x 31"
  using and_exp_eq_0_iff_not_bit [of x 31] by simp

lemma take_bit_plus_exp:
  "m < n \<Longrightarrow> take_bit m (a::int) OR 2 ^ n = take_bit m a + 2 ^ n"
  by (rule disjunctive_add [symmetric]) (auto simp: bit_simps bit_exp_iff)

lemma or_eff_flag: "0 \<le> (a::int) \<Longrightarrow> a < 2 ^ 29 \<Longrightarrow> a OR 0x80000000 = a + 2 ^ 31"
proof -
  assume a: "0 \<le> a" "a < 2 ^ 29"
  then have ta: "take_bit 29 a = a" by (simp add: take_bit_int_eq_self)
  from take_bit_plus_exp [of 29 31 a] ta show ?thesis by simp
qed

lemma pack_nibbles:
  "0 \<le> (b::int) \<Longrightarrow> b < 16 \<Longrightarrow> 0 \<le> (d::int) \<Longrightarrow> d < 16 \<Longrightarrow> push_bit 4 b OR d = 16 * b + d"
proof -
  assume b: "0 \<le> b" "b < 16" and d: "0 \<le> d" "d < 16"
  then have td: "take_bit 4 d = d" by (simp add: take_bit_int_eq_self)
  have "push_bit 4 b + take_bit 4 d = push_bit 4 b OR take_bit 4 d"
    by (rule disjunctive_add) (auto simp: bit_simps)
  with td show ?thesis by (simp add: push_bit_eq_mult)
qed

lemma py_upto_min: "py_upto (int (min (length xs) k)) xs = take (min (length xs) k) xs"
  by (simp add: py_upto_def)

lemma to_bytes_4_ok: "0 \<le> x \<Longrightarrow> x < 2 ^ 32 \<Longrightarrow> to_bytes 4 x = Inr (le_bytes 4 x)"
  by (simp add: to_bytes_def)

lemma gvret_id_eq:
  "(can_id AND (if can_id AND CAN_EFF_FLAG \<noteq> 0 then CAN_EFF_MASK else CAN_SFF_MASK))
        OR (if can_id AND CAN_EFF_FLAG \<noteq> 0 then 0x80000000 else 0)
      = (if bit can_id 31 then can_id mod 2 ^ 29 + 2 ^ 31 else can_id mod 2 ^ 11)"
proof -
  have "0 \<le> can_id mod 2 ^ 29" "can_id mod 2 ^ 29 < 2 ^ 29" by simp_all
  from or_eff_flag [OF this] show ?thesis
    by (simp add: CAN_EFF_FLAG_def CAN_EFF_MASK_def CAN_SFF_MASK_def and_masks and_eff_flag)
qed

lemma gvret_id_range:
  "0 \<le> (if bit can_id 31 then can_id mod 2 ^ 29 + 2 ^ 31 else can_id mod 2 ^ 11)"
  "(if bit (can_id::int) 31 then can_id mod 2 ^ 29 + 2 ^ 31 else can_id mod 2 ^ 11) < 2 ^ 32"
proof -
  define a b where "a = can_id mod 2 ^ 29" and "b = can_id mod 2 ^ 11"
  have "0 \<le> a" "a < 2 ^ 29" "0 \<le> b" "b < 2 ^ 11" by (simp_all add: a_def b_def)
  then have "0 \<le> (if bit can_id 31 then a + 2 ^ 31 else b)"
    "(if bit can_id 31 then a + 2 ^ 31 else b) < 2 ^ 32"
    by simp_all
  then show "0 \<le> (if bit can_id 31 then can_id mod 2 ^ 29 + 2 ^ 31 else can_id mod 2 ^ 11)"
    "(if bit can_id 31 then can_id mod 2 ^ 29 + 2 ^ 31 else can_id mod 2 ^ 11) < 2 ^ 32"
    by (simp_all only: a_def b_def)
qed

lemma bus_and_dlc_eq:
  "0 \<le> (d::int) \<Longrightarrow> d < 16 \<Longrightarrow> push_bit 4 ((bus::int) AND 0x0F) OR (d AND 0x0F) = 16 * (bus mod 16) + d"
  using pack_nibbles [of "bus mod 16" d] by (simp add: and_masks)

lemma send_frame_core:
  fixes n :: nat and bus :: int
  assumes bin: "binary s"
    and dl: "data_len = int (min (length data_bytes) n)"
    and d: "0 \<le> dlc" "dlc < 16"
  shows "(case to_bytes 4 (us AND 0xFFFFFFFF) of
             Inl err \<Rightarrow> Inl err
           | Inr tsb \<Rightarrow>
               (case to_bytes 4 ((can_id AND (if can_id AND CAN_EFF_FLAG \<noteq> 0 then CAN_EFF_MASK else CAN_SFF_MASK))
        OR (if can_id AND CAN_EFF_FLAG \<noteq> 0 then 0x80000000 else 0)) of
                  Inl err \<Rightarrow> Inl err
                | Inr idb \<Rightarrow>
                    if 0 \<le> push_bit 4 (bus AND 0x0F) OR (dlc AND 0x0F) \<and> push_bit 4 (bus AND 0x0F) OR (dlc AND 0x0F) < 256
                    then Inr (send s ([0xF1, 0x00] @ tsb @ idb @ [word_of_int (push_bit 4 (bus AND 0x0F) OR (dlc AND 0x0F))]
                                      @ py_upto data_len data_bytes @ [0x00]))
                    else Inl ValueError))
     = Inr (s\<lparr>sent := sent s @ [0xF1, 0x00] @ le_bytes 4 (us mod 2 ^ 32)
                   @ le_bytes 4 (if bit can_id 31 then can_id mod 2 ^ 29 + 2 ^ 31 else can_id mod 2 ^ 11)
                   @ [word_of_int (16 * (bus mod 16) + dlc)]
                   @ take (min (length data_bytes) n) data_bytes @ [0x00]\<rparr>)"
proof -
  have ts: "to_bytes 4 (us AND 0xFFFFFFFF) = Inr (le_bytes 4 (us mod 2 ^ 32))"
    using to_bytes_4_ok [of "us mod 2 ^ 32"] by (simp add: and_masks)
  have gv: "to_bytes 4 ((can_id AND (if can_id AND CAN_EFF_FLAG \<noteq> 0 then CAN_EFF_MASK else CAN_SFF_MASK))
        OR (if can_id AND CAN_EFF_FLAG \<noteq> 0 then 0x80000000 else 0))
     = Inr (le_bytes 4 (if bit can_id 31 then can_id mod 2 ^ 29 + 2 ^ 31 else can_id mod 2 ^ 11))"
    using to_bytes_4_ok [OF gvret_id_range [of can_id]] by (simp only: gvret_id_eq)
  have b: "0 \<le> bus mod 16" "bus mod 16 < 16" by simp_all
  have rng: "0 \<le> 16 * (bus mod 16) + dlc \<and> 16 * (bus mod 16) + dlc < 256"
    using d b by linarith
  have up: "py_upto data_len data_bytes = take (min (length data_bytes) n) data_bytes"
    using py_upto_min [of data_bytes n] dl by simp
  show ?thesis
    by (simp only: ts gv bus_and_dlc_eq [OF d] rng up sum.case if_True send_def simp_thms)
qed

text \<open>
  C5. \<^verbatim>\<open>send_frame\<close> emits nothing unless the session is in binary state. In binary
  state it emits exactly \<open>F1 00\<close>, the microseconds since session start as 32 bits
  little-endian (the clock reading modulo \<open>2\<^sup>3\<^sup>2\<close>), the arbitration identifier (the
  low 29 bits of the identifier word when its bit 31 is set, the low 11 bits otherwise)
  as 32 bits little-endian with bit 31 set exactly for an extended frame, one byte with
  the bus number in the high nibble (its low four bits) and the DLC in the low nibble
  (\<open>len_to_dlc\<close> of the data length for FD, the data length for classic), the first
  data-length bytes of the payload with no padding, and a final \<open>00\<close>. The data length
  is the length of the payload, capped at 64 (FD) or 8 (classic).
\<close>

theorem send_frame_layout:
  "send_frame s us can_id bus data_bytes is_fd =
     (let n = min (length data_bytes) (if is_fd then 64 else 8);
          dlc = (if is_fd then len_to_dlc (int n) else int n);
          gvret_id = (if bit can_id 31 then can_id mod 2 ^ 29 + 2 ^ 31 else can_id mod 2 ^ 11)
      in if binary s
         then Inr (s\<lparr>sent := sent s @ [0xF1, 0x00] @ le_bytes 4 (us mod 2 ^ 32)
                              @ le_bytes 4 gvret_id @ [word_of_int (16 * (bus mod 16) + dlc)]
                              @ take n data_bytes @ [0x00]\<rparr>)
         else Inr s)"
proof (cases "binary s")
  case False
  then show ?thesis by (simp add: send_frame_def)
next
  case True
  show ?thesis
  proof (cases is_fd)
    case fd: True
    have m: "min (int (length data_bytes)) 64 = int (min (length data_bytes) 64)" by simp
    have d: "0 \<le> len_to_dlc (int (min (length data_bytes) 64))"
      "len_to_dlc (int (min (length data_bytes) 64)) < 16"
      using len_to_dlc_smallest [of "int (min (length data_bytes) 64)"] by simp_all
    note core = send_frame_core [where n = 64 and data_bytes = data_bytes and us = us
        and can_id = can_id and bus = bus, OF True refl d]
    show ?thesis unfolding send_frame_def Let_def using core m
      by (simp only: True fd if_True not_True_eq_False if_False simp_thms)
  next
    case cl: False
    have m: "min (int (length data_bytes)) 8 = int (min (length data_bytes) 8)" by simp
    have d: "0 \<le> int (min (length data_bytes) 8)" "int (min (length data_bytes) 8) < 16"
      by simp_all
    note core = send_frame_core [where n = 8 and data_bytes = data_bytes and us = us
        and can_id = can_id and bus = bus, OF True refl d]
    show ?thesis unfolding send_frame_def Let_def using core m
      by (simp only: True cl if_True not_True_eq_False if_False simp_thms)
  qed
qed

theorem send_frame_layout_witness:
  "send_frame ((GVRETClient 2 [500000, 500000])\<lparr>binary := True\<rparr>) 0x01020304 0x81ABCDEF 1
      [0, 1, 2, 3, 4, 5, 6, 7, 8, 9, 10, 11] True
   = Inr ((GVRETClient 2 [500000, 500000])
            \<lparr>binary := True,
             sent := [0xF1, 0x00, 0x04, 0x03, 0x02, 0x01, 0xEF, 0xCD, 0xAB, 0x81, 0x19,
                      0, 1, 2, 3, 4, 5, 6, 7, 8, 9, 10, 11, 0x00]\<rparr>)"
proof -
  let ?s = "(GVRETClient 2 [500000, 500000])\<lparr>binary := True\<rparr>"
  let ?d = "[0, 1, 2, 3, 4, 5, 6, 7, 8, 9, 10, 11] :: byte list"
  have rhs:
    "(let n = min (length ?d) (if True then 64 else 8);
          dlc = (if True then len_to_dlc (int n) else int n);
          gvret_id = (if bit (0x81ABCDEF :: int) 31 then 0x81ABCDEF mod 2 ^ 29 + 2 ^ 31
                      else 0x81ABCDEF mod 2 ^ 11)
      in if binary ?s
         then Inr (?s\<lparr>sent := sent ?s @ [0xF1, 0x00] @ le_bytes 4 (0x01020304 mod 2 ^ 32)
                              @ le_bytes 4 gvret_id @ [word_of_int (16 * (1 mod 16) + dlc)]
                              @ take n ?d @ [0x00]\<rparr>)
         else Inr ?s)
     = (Inr ((GVRETClient 2 [500000, 500000])
            \<lparr>binary := True,
             sent := [0xF1, 0x00, 0x04, 0x03, 0x02, 0x01, 0xEF, 0xCD, 0xAB, 0x81, 0x19,
                      0, 1, 2, 3, 4, 5, 6, 7, 8, 9, 10, 11, 0x00]\<rparr>)
        :: error + gvret_client)"
    by code_simp
  from send_frame_layout [of ?s "0x01020304" "0x81ABCDEF" 1 ?d True] rhs
  show ?thesis by (rule trans)
qed

subsection \<open>Handshake\<close>

lemma handshake_step:
  assumes xx: "xx \<noteq> 0xE7" and m: "1 \<le> m" and le: "k + m \<le> 5"
  shows "rx_chunk tx_func us (take m (drop k (hs_bytes xx))) (hs_state (GVRETClient n speeds) xx k, w)
         = (hs_state (GVRETClient n speeds) xx (k + m), w)"
proof -
  from m le have "(k, m) \<in> {(0, 1), (0, 2), (0, 3), (0, 4), (0, 5), (1, 1), (1, 2), (1, 3), (1, 4),
      (2, 1), (2, 2), (2, 3), (3, 1), (3, 2), (4, 1)}"
    by (simp, arith)
  then show ?thesis using xx
    apply (elim insertE emptyE)
    apply (simp_all add: hs_bytes_def hs_state_def rx_chunk_def GVRETClient_def resync_def try_consume_send_frame_def
        reply_keepalive_def send_def)
    done
qed

lemma rx_chunks_prefix:
  assumes xx: "xx \<noteq> 0xE7"
  shows "[] \<notin> set cs \<Longrightarrow> concat cs = take j (drop k (hs_bytes xx)) \<Longrightarrow> k + j \<le> 5 \<Longrightarrow>
         rx_chunks tx_func us cs (hs_state (GVRETClient n speeds) xx k, w)
         = (hs_state (GVRETClient n speeds) xx (k + j), w)"
proof (induction cs arbitrary: k j)
  case Nil
  then have "j = 0 \<or> length (hs_bytes xx) \<le> k" and "k + j \<le> 5" by simp_all
  then have "j = 0" by (simp add: hs_bytes_def) arith
  then show ?case by simp
next
  case (Cons c cs)
  let ?B = "hs_bytes xx"
  let ?m = "length c"
  from Cons.prems have ne: "c \<noteq> []" and rest: "[] \<notin> set cs" by auto
  from Cons.prems have app: "c @ concat cs = take j (drop k ?B)" by simp
  from Cons.prems have lenB: "length (take j (drop k ?B)) = j" by (simp add: hs_bytes_def)
  with app have mj: "?m \<le> j" by (metis length_append le_add1)
  from app have "c = take ?m (take j (drop k ?B))" by (metis append_eq_conv_conj)
  with mj have c: "c = take ?m (drop k ?B)" by (simp add: min_def)
  from app have "concat cs = drop ?m (take j (drop k ?B))" by (metis append_eq_conv_conj)
  then have cs: "concat cs = take (j - ?m) (drop (k + ?m) ?B)"
    by (simp add: drop_take add.commute)
  from ne have m1: "1 \<le> ?m" by (cases c) simp_all
  from mj Cons.prems have le1: "k + ?m \<le> 5" and le2: "(k + ?m) + (j - ?m) \<le> 5" by simp_all
  have "rx_chunk tx_func us c (hs_state (GVRETClient n speeds) xx k, w)
        = (hs_state (GVRETClient n speeds) xx (k + ?m), w)"
    using handshake_step [OF xx m1 le1, of tx_func us n speeds w] c by simp
  moreover have "rx_chunks tx_func us cs (hs_state (GVRETClient n speeds) xx (k + ?m), w)
        = (hs_state (GVRETClient n speeds) xx ((k + ?m) + (j - ?m)), w)"
    using Cons.IH [OF rest cs le2] .
  ultimately show ?case using mj by simp
qed

text \<open>
  C9. A fresh session (ascii state) is fed the bytes \<open>XX E7 E7 F1 09\<close>, \<open>XX\<close> any byte
  but \<open>E7\<close>, in chunks cut anywhere. After the first \<open>j\<close> bytes: nothing has been sent
  while \<open>j < 5\<close>, so nothing before the second \<open>E7\<close>; the session is in binary state
  exactly from the second \<open>E7\<close> on (\<open>3 \<le> j\<close>), with \<open>XX\<close> and the pair \<open>E7 E7\<close>
  removed from the buffer; and after the fifth byte exactly \<open>F1 09 DE AD\<close> has been sent
  and the buffer is empty.
\<close>

theorem handshake_then_keepalive:
  assumes "xx \<noteq> 0xE7" and "[] \<notin> set cs"
    and "concat cs = take j [xx, 0xE7, 0xE7, 0xF1, 0x09]" and "j \<le> 5"
  shows "rx_chunks tx_func us cs (GVRETClient n speeds, w)
         = ((GVRETClient n speeds)
              \<lparr>binary := (3 \<le> j),
               buf := (if j = 1 then [xx] else if j = 2 then [xx, 0xE7]
                       else if j = 4 then [0xF1] else []),
               sent := (if j = 5 then [0xF1, 0x09, 0xDE, 0xAD] else [])\<rparr>, w)"
proof -
  from assms(4) have j: "j \<in> {0, 1, 2, 3, 4, 5}" by (simp, arith)
  from assms have "rx_chunks tx_func us cs (hs_state (GVRETClient n speeds) xx 0, w)
         = (hs_state (GVRETClient n speeds) xx (0 + j), w)"
    by (intro rx_chunks_prefix) (simp_all add: hs_bytes_def)
  with j show ?thesis
    by (elim insertE emptyE) (simp_all add: hs_state_def GVRETClient_def)
qed

theorem handshake_then_keepalive_witness:
  "(0x55 :: byte) \<noteq> 0xE7
   \<and> [] \<notin> set [[0x55, 0xE7], [0xE7, 0xF1], [0x09 :: byte]]
   \<and> concat [[0x55, 0xE7], [0xE7, 0xF1], [0x09]] = take 5 [0x55, 0xE7, 0xE7, 0xF1, 0x09 :: byte]
   \<and> (5 :: nat) \<le> 5
   \<and> rx_chunks (None :: (int \<Rightarrow> int \<Rightarrow> byte list \<Rightarrow> unit \<Rightarrow> error + unit) option) 0
         [[0x55, 0xE7], [0xE7, 0xF1], [0x09]] (GVRETClient 1 [500000], ())
       = ((GVRETClient 1 [500000])\<lparr>binary := True, sent := [0xF1, 0x09, 0xDE, 0xAD]\<rparr>, ())"
  using handshake_then_keepalive [of "0x55" "[[0x55, 0xE7], [0xE7, 0xF1], [0x09]]" 5
      "None :: (int \<Rightarrow> int \<Rightarrow> byte list \<Rightarrow> unit \<Rightarrow> error + unit) option" 0 1 "[500000]" "()"]
  by (simp add: GVRETClient_def)

subsection \<open>Transmit path\<close>

text \<open>
  C6 (as amended). A client in binary state sends
  \<open>F1 00 80 00 00 00 00 01 41 42 43 44\<close> to a server with bus offset 0, at least two
  interfaces, and an ingest pipeline whose queue is not full. The identifier field is
  little-endian, so the identifier is \<open>0x80\<close>, the bus is 0 and the length is 1: the CAN
  socket at index 0 is written one classic frame with the extended flag clear,
  arbitration identifier \<open>0x80\<close>, DLC 1 and payload \<open>41\<close>; the bytes \<open>42 43 44\<close> are
  dropped; the pipeline receives exactly one entry, with direction \<open>tx\<close>. The outcome the
  claim describes (socket 1, extended, identifier 0) is that of the bytes
  \<open>F1 00 00 00 00 80 01 01 41 42 43 44\<close>.
\<close>

theorem tx_path_scenario:
  assumes "binary s" and "alive s" and "buf s = []"
    and "bus_offset srv = 0" and "2 \<le> length (can_socks srv)"
    and "pg_writer srv = Some pg" and "\<not> queue_full pg"
  shows "rx_chunk (Some (tx_can now False)) us
           [0xF1, 0x00, 0x80, 0x00, 0x00, 0x00, 0x00, 0x01, 0x41, 0x42, 0x43, 0x44] (s, srv)
         = (s, srv\<lparr>can_socks := (can_socks srv)
                      [0 := can_socks srv ! 0 @ [[0x80, 0, 0, 0, 1, 0, 0, 0, 0x41, 0, 0, 0, 0, 0, 0, 0]]],
                   pg_writer := Some (pg\<lparr>q := q pg @
                      [Row \<lparr>r_ts = now, r_extended = False, r_is_fd = False, r_arb_id = 0x80,
                            r_id_hex = None, r_dlc = 1, r_data = [0x41], r_bus = 0,
                            r_dir = ''tx''\<rparr>],
                      count_enqueued := count_enqueued pg + 1\<rparr>)\<rparr>)
       \<and> run_unpack [0x80, 0, 0, 0, 1, 0, 0, 0, 0x41, 0, 0, 0, 0, 0, 0, 0]
         = Inr \<lparr>fr_can_id = 0x80, fr_data_len = 1, fr_data = [0x41], fr_dlc = 1,
                 fr_fd_flags = 0, fr_is_fd = False\<rparr>
       \<and> \<not> is_ext 0x80 \<and> arb_id 0x80 = 0x80
       \<and> rx_chunk (Some (tx_can now False)) us
           [0xF1, 0x00, 0x00, 0x00, 0x00, 0x80, 0x01, 0x01, 0x41, 0x42, 0x43, 0x44] (s, srv)
         = (s, srv\<lparr>can_socks := (can_socks srv)
                      [1 := can_socks srv ! 1 @ [[0, 0, 0, 0x80, 1, 0, 0, 0, 0x41, 0, 0, 0, 0, 0, 0, 0]]],
                   pg_writer := Some (pg\<lparr>q := q pg @
                      [Row \<lparr>r_ts = now, r_extended = True, r_is_fd = False, r_arb_id = 0,
                            r_id_hex = None, r_dlc = 1, r_data = [0x41], r_bus = 1,
                            r_dir = ''tx''\<rparr>],
                      count_enqueued := count_enqueued pg + 1\<rparr>)\<rparr>)
       \<and> run_unpack [0, 0, 0, 0x80, 1, 0, 0, 0, 0x41, 0, 0, 0, 0, 0, 0, 0]
         = Inr \<lparr>fr_can_id = 0x80000000, fr_data_len = 1, fr_data = [0x41], fr_dlc = 1,
                 fr_fd_flags = 0, fr_is_fd = False\<rparr>
       \<and> is_ext 0x80000000 \<and> arb_id 0x80000000 = 0"
proof -
  from assms(5) have ne: "can_socks srv \<noteq> []" by auto
  have rep: "replicate 7 (0 :: byte) = [0, 0, 0, 0, 0, 0, 0]" by (simp add: numeral_eq_Suc)
  have le: "le_bytes 4 0x80 = [0x80, 0, 0, 0]" "le_bytes 4 0x80000000 = [0, 0, 0, 0x80]"
    by (simp_all add: le_bytes_4)
  show ?thesis using assms ne
  by (simp add: rep le rx_chunk_def resync_def try_consume_send_frame_def py_slice_def tx_can_def
      tx_can_pack_def pack_I_def pack_B_def pack_s_def ljust_def enqueue_def
      CAN_EFF_FLAG_def CAN_EFF_MASK_def CAN_SFF_MASK_def py_upto_def run_unpack_def is_ext_def
      arb_id_def Let_def)
qed

theorem tx_path_scenario_witness:
  "binary example_client \<and> alive example_client \<and> buf example_client = []
   \<and> bus_offset example_server = 0 \<and> 2 \<le> length (can_socks example_server)
   \<and> pg_writer example_server = Some (PostgresWriter 500 50000 ''rx'' 1000 50 (DiskCache 1000))
   \<and> \<not> queue_full (PostgresWriter 500 50000 ''rx'' 1000 50 (DiskCache 1000))
   \<and> can_socks (snd (rx_chunk (Some (tx_can 7 False)) 0
           [0xF1, 0x00, 0x00, 0x00, 0x00, 0x80, 0x01, 0x01, 0x41, 0x42, 0x43, 0x44]
           (example_client, example_server)))
       = [[], [[0, 0, 0, 0x80, 1, 0, 0, 0, 0x41, 0, 0, 0, 0, 0, 0, 0]]]"
proof -
  have h: "binary example_client" "alive example_client" "buf example_client = []"
    "bus_offset example_server = 0" "2 \<le> length (can_socks example_server)"
    "pg_writer example_server = Some (PostgresWriter 500 50000 ''rx'' 1000 50 (DiskCache 1000))"
    "\<not> queue_full (PostgresWriter 500 50000 ''rx'' 1000 50 (DiskCache 1000))"
    by (simp_all add: example_client_def example_server_def accept_def GVRETClient_def
        queue_full_def PostgresWriter_def)
  from tx_path_scenario [OF h, of 7 0] h show ?thesis
    by (simp add: example_server_def)
qed

text \<open>
  C6 as stated fails: on the bytes of the claim the socket at index 1 is written nothing,
  and the frame written to socket 0 has the extended flag clear and identifier \<open>0x80\<close>.
\<close>

theorem tx_path_scenario_counterexample:
  "can_socks (snd (rx_chunk (Some (tx_can 7 False)) 0
           [0xF1, 0x00, 0x80, 0x00, 0x00, 0x00, 0x00, 0x01, 0x41, 0x42, 0x43, 0x44]
           (example_client, example_server)))
     = [[[0x80, 0, 0, 0, 1, 0, 0, 0, 0x41, 0, 0, 0, 0, 0, 0, 0]], []]
   \<and> run_unpack [0x80, 0, 0, 0, 1, 0, 0, 0, 0x41, 0, 0, 0, 0, 0, 0, 0]
       = Inr \<lparr>fr_can_id = 0x80, fr_data_len = 1, fr_data = [0x41], fr_dlc = 1,
               fr_fd_flags = 0, fr_is_fd = False\<rparr>
   \<and> \<not> is_ext 0x80 \<and> arb_id 0x80 \<noteq> 0"
  by code_simp

subsection \<open>Bus parameters\<close>

text \<open>Where the bit rates cover the buses that are advertised as enabled, the response is
  \<open>F1 06\<close>, then for each of the first two buses the flags byte (bit 0: enabled; bit 4,
  listen-only, is never set) and the rate as 32 bits little-endian, zeros for a bus beyond
  the bus count.\<close>

lemma canbus_params_reply:
  assumes "bus_count s < 1 \<or> 1 \<le> length (bus_speeds s)"
    and "bus_count s < 2 \<or> 2 \<le> length (bus_speeds s)"
    and "\<forall>v \<in> set (bus_speeds s). 0 \<le> v \<and> v < 2 ^ 32"
  shows "reply_canbus_params s =
     Inr (send s ([0xF1, 0x06]
            @ [if 1 \<le> bus_count s then 1 else 0]
            @ le_bytes 4 (if 1 \<le> bus_count s then bus_speeds s ! 0 else 0)
            @ [if 2 \<le> bus_count s then 1 else 0]
            @ le_bytes 4 (if 2 \<le> bus_count s then bus_speeds s ! 1 else 0)))"
proof -
  have r: "0 \<le> bus_speeds s ! i \<and> bus_speeds s ! i < 2 ^ 32" if "i < length (bus_speeds s)" for i
    using assms(3) that by (metis nth_mem)
  consider "bus_count s < 1" | "bus_count s = 1" | "2 \<le> bus_count s" by linarith
  then show ?thesis
  proof cases
    case 1
    then show ?thesis by (simp add: reply_canbus_params_def to_bytes_def)
  next
    case 2
    with assms(1) have "0 < length (bus_speeds s)" by auto
    with r [of 0] 2 show ?thesis
      by (simp add: reply_canbus_params_def to_bytes_def py_index_def)
  next
    case 3
    with assms(2) have l: "0 < length (bus_speeds s)" "1 < length (bus_speeds s)" by auto
    with r [of 0] r [of 1] 3 show ?thesis
      by (simp add: reply_canbus_params_def to_bytes_def py_index_def)
  qed
qed

text \<open>
  C7 fails where the bus offset makes the bus count exceed the number of interfaces. With
  one interface and bus offset 1 the session has bus count 2 and one bit rate;
  \<^verbatim>\<open>reply_canbus_params\<close> indexes \<^verbatim>\<open>bus_speeds[1]\<close> and raises IndexError, so a
  \<open>F1 06\<close> request is answered with nothing and the session is closed.
\<close>

theorem canbus_params_index_error:
  "bus_count (accept offset_server) = 2
   \<and> bus_speeds (accept offset_server) = [500000]
   \<and> reply_canbus_params (accept offset_server) = Inl IndexError
   \<and> rx_chunks (None :: (int \<Rightarrow> int \<Rightarrow> byte list \<Rightarrow> unit \<Rightarrow> error + unit) option) 0
         [[0xE7, 0xE7], [0xF1, 0x06]] (accept offset_server, ())
       = ((accept offset_server)\<lparr>binary := True, alive := False\<rparr>, ())"
  by code_simp

subsection \<open>The handshake scan in binary state\<close>

lemma occurs_at_Cons_Suc: "occurs_at (a # bs) (Suc i) = occurs_at bs i"
  by (simp add: occurs_at_def)

lemma occurs_at_drop: "occurs_at (drop n b) j = occurs_at b (n + j)"
  by (auto simp: occurs_at_def)

lemma find_e7e7_None: "find_e7e7 b = None \<Longrightarrow> \<not> occurs_at b i"
proof (induction b arbitrary: i rule: find_e7e7.induct)
  case (1 a b bs)
  show ?case
  proof (cases i)
    case 0
    with 1 show ?thesis by (auto simp: occurs_at_def split: if_splits)
  next
    case (Suc j)
    with 1 show ?thesis by (auto simp: occurs_at_Cons_Suc split: if_splits)
  qed
qed (simp_all add: occurs_at_def)

lemma find_e7e7_Some:
  "find_e7e7 b = Some i \<Longrightarrow> occurs_at b i \<and> (\<forall>j<i. \<not> occurs_at b j)"
proof (induction b arbitrary: i rule: find_e7e7.induct)
  case (1 a b bs)
  show ?case
  proof (cases "a = 0xE7 \<and> b = 0xE7")
    case True
    with 1 show ?thesis by (auto simp: occurs_at_def)
  next
    case False
    with "1.prems" obtain k where k: "find_e7e7 (b # bs) = Some k" "i = Suc k" by auto
    from "1.IH" [OF False k(1)] have ih: "occurs_at (b # bs) k" "\<forall>j<k. \<not> occurs_at (b # bs) j"
      by simp_all
    have "\<not> occurs_at (a # b # bs) j" if "j < i" for j
    proof (cases j)
      case 0
      with False show ?thesis by (auto simp: occurs_at_def)
    next
      case (Suc j')
      with that k ih show ?thesis by (simp add: occurs_at_Cons_Suc)
    qed
    with ih k show ?thesis by (simp add: occurs_at_Cons_Suc)
  qed
qed simp_all

lemma find_e7e7_exists: "occurs_at b i \<Longrightarrow> \<exists>k. find_e7e7 b = Some k"
  using find_e7e7_None [of b i] by (cases "find_e7e7 b") auto

lemma handshake_None: "find_e7e7 (buf s) = None \<Longrightarrow> handshake s = s"
  by (subst handshake.simps) simp

lemma handshake_Some:
  "find_e7e7 (buf s) = Some idx \<Longrightarrow>
     handshake s = handshake (s\<lparr>buf := drop (idx + 2) (buf s), binary := True\<rparr>)"
  by (subst handshake.simps) simp

lemma handshake_binary_buf: "binary s \<Longrightarrow> handshake s = s\<lparr>buf := buf (handshake s)\<rparr>"
proof (induction s rule: handshake.induct)
  case (1 s)
  show ?case
  proof (cases "find_e7e7 (buf s)")
    case None
    then show ?thesis by (simp add: handshake_None del: handshake.simps)
  next
    case (Some idx)
    let ?s' = "s\<lparr>buf := drop (idx + 2) (buf s), binary := True\<rparr>"
    from "1.prems" have same: "s\<lparr>binary := True\<rparr> = s" by (cases s) simp
    from "1.IH" [OF Some] have "handshake ?s' = ?s'\<lparr>buf := buf (handshake ?s')\<rparr>"
      by (simp del: handshake.simps)
    then have "handshake ?s' = (s\<lparr>binary := True\<rparr>)\<lparr>buf := buf (handshake ?s')\<rparr>"
      by (simp del: handshake.simps)
    with same have "handshake ?s' = s\<lparr>buf := buf (handshake ?s')\<rparr>" by simp
    with handshake_Some [OF Some] show ?thesis by (simp del: handshake.simps)
  qed
qed

lemma handshake_last:
  "occurs_at (buf s) L \<Longrightarrow> \<forall>i. L < i \<longrightarrow> \<not> occurs_at (buf s) i \<Longrightarrow>
     buf (handshake s) = drop (L + 2) (buf s) \<or> buf (handshake s) = 0xE7 # drop (L + 2) (buf s)"
proof (induction s arbitrary: L rule: handshake.induct)
  case (1 s)
  from find_e7e7_exists [OF "1.prems"(1)] obtain idx where idx: "find_e7e7 (buf s) = Some idx" ..
  let ?b = "buf s"
  let ?s' = "s\<lparr>buf := drop (idx + 2) ?b, binary := True\<rparr>"
  from idx have hs: "handshake s = handshake ?s'" by (rule handshake_Some)
  from find_e7e7_Some [OF idx] "1.prems"(1) have le: "idx \<le> L"
    by (meson not_le_imp_less)
  have no_later: "\<not> occurs_at (drop n ?b) j" if "L < n + j" for n j
    using that "1.prems"(2) by (simp add: occurs_at_drop)
  consider "idx = L" | "Suc idx = L" | "idx + 2 \<le> L" using le by linarith
  then show ?case
  proof cases
    case 1
    have "find_e7e7 (drop (L + 2) ?b) = None"
    proof (cases "find_e7e7 (drop (L + 2) ?b)")
      case (Some k)
      from find_e7e7_Some [OF Some] no_later [of "L + 2" k] show ?thesis by simp
    qed simp
    with 1 hs show ?thesis by (simp add: handshake_None del: handshake.simps)
  next
    case 2
    have none: "find_e7e7 (drop (L + 1) ?b) = None"
    proof (cases "find_e7e7 (drop (L + 1) ?b)")
      case (Some k)
      from find_e7e7_Some [OF Some] no_later [of "L + 1" k] show ?thesis by simp
    qed simp
    from "1.prems"(1) have "drop (L + 1) ?b = 0xE7 # drop (L + 2) ?b"
      using Cons_nth_drop_Suc [of "Suc L" ?b] by (simp add: occurs_at_def)
    with 2 hs none show ?thesis by (simp add: handshake_None del: handshake.simps)
  next
    case 3
    then obtain L' where L': "L = idx + 2 + L'" using le_Suc_ex by blast
    have a: "occurs_at (buf ?s') L'" using "1.prems"(1) L' by (simp add: occurs_at_drop)
    have b: "\<forall>i. L' < i \<longrightarrow> \<not> occurs_at (buf ?s') i"
      using no_later [of "idx + 2"] L' by simp
    from "1.IH" [OF idx a b] hs L' show ?thesis
      by (simp add: add.commute add.left_commute del: handshake.simps)
  qed
qed

lemma parse_commands_skip_e7:
  "binary s \<Longrightarrow> parse_commands tx_func us (s\<lparr>buf := 0xE7 # t\<rparr>, w)
               = parse_commands tx_func us (s\<lparr>buf := t\<rparr>, w)"
  by (simp add: resync_def)

text \<open>
  C10. A session already in binary state receives a chunk, and the buffered input (the
  buffer with the chunk appended) contains \<open>E7 E7\<close>, its last occurrence at index
  \<open>L\<close>. Then the pass does exactly what request parsing does on the bytes after that
  occurrence alone: every buffered byte up to and including the last \<open>E7 E7\<close> is deleted
  before a request is read, so a complete request in front of an \<open>E7 E7\<close> is neither
  answered nor executed. (The search loop deletes through the last pair it finds from the
  left; where two occurrences overlap, as in \<open>E7 E7 E7\<close>, it leaves the final \<open>E7\<close>,
  which the resync step of the parsing loop drops before it reads a request:
  \<open>handshake_last\<close> and \<open>parse_commands_skip_e7\<close>.)
\<close>

theorem binary_handshake_discards:
  assumes "alive s" and "binary s" and "chunk \<noteq> []"
    and "occurs_at (buf s @ chunk) L"
    and "\<forall>i. L < i \<longrightarrow> \<not> occurs_at (buf s @ chunk) i"
  shows "rx_chunk tx_func us chunk (s, w)
         = parse_commands tx_func us (s\<lparr>buf := drop (L + 2) (buf s @ chunk)\<rparr>, w)"
proof -
  let ?s1 = "s\<lparr>buf := buf s @ chunk\<rparr>"
  let ?t = "drop (L + 2) (buf s @ chunk)"
  from assms(2) have bin: "binary ?s1" by simp
  from handshake_binary_buf [OF bin] have hs: "handshake ?s1 = s\<lparr>buf := buf (handshake ?s1)\<rparr>"
    by (simp del: handshake.simps)
  from assms(4,5) have "buf (handshake ?s1) = ?t \<or> buf (handshake ?s1) = 0xE7 # ?t"
    using handshake_last [of ?s1 L] by (simp del: handshake.simps)
  then have "parse_commands tx_func us (s\<lparr>buf := buf (handshake ?s1)\<rparr>, w)
             = parse_commands tx_func us (s\<lparr>buf := ?t\<rparr>, w)"
    using parse_commands_skip_e7 [OF assms(2), of tx_func us ?t w]
    by (auto simp del: handshake.simps parse_commands.simps)
  with hs have "parse_commands tx_func us (handshake ?s1, w)
             = parse_commands tx_func us (s\<lparr>buf := ?t\<rparr>, w)"
    by (simp del: handshake.simps parse_commands.simps)
  with assms(1,3) show ?thesis
    by (simp add: rx_chunk_def del: handshake.simps parse_commands.simps)
qed

theorem binary_handshake_discards_witness:
  "alive example_client \<and> binary example_client
   \<and> occurs_at [0xF1, 0x09, 0xE7, 0xE7, 0xE7, 0xF1, 0x0C] 3
   \<and> \<not> occurs_at [0xF1, 0x09, 0xE7, 0xE7, 0xE7, 0xF1, 0x0C] 4
   \<and> \<not> occurs_at [0xF1, 0x09, 0xE7, 0xE7, 0xE7, 0xF1, 0x0C] 5
   \<and> rx_chunk (None :: (int \<Rightarrow> int \<Rightarrow> byte list \<Rightarrow> unit \<Rightarrow> error + unit) option) 0
         [0xF1, 0x09, 0xE7, 0xE7, 0xE7, 0xF1, 0x0C] (example_client, ())
       = (example_client\<lparr>sent := [0xF1, 0x0C, 0x02]\<rparr>, ())"
proof -
  let ?c = "[0xF1, 0x09, 0xE7, 0xE7, 0xE7, 0xF1, 0x0C] :: byte list"
  let ?tx = "None :: (int \<Rightarrow> int \<Rightarrow> byte list \<Rightarrow> unit \<Rightarrow> error + unit) option"
  have a: "alive example_client" and b: "binary example_client"
    and e: "buf example_client = []"
    by (simp_all add: example_client_def accept_def GVRETClient_def)
  have ne: "?c \<noteq> []" by simp
  have o3: "occurs_at (buf example_client @ ?c) 3" by (simp add: e occurs_at_def)
  have o4: "\<not> occurs_at ?c 4" and o5: "\<not> occurs_at ?c 5" by (simp_all add: occurs_at_def)
  have later: "\<forall>i. 3 < i \<longrightarrow> \<not> occurs_at (buf example_client @ ?c) i"
  proof (intro allI impI)
    fix i :: nat
    assume "3 < i"
    then consider "i = 4" | "i = 5" | "6 \<le> i" by linarith
    then show "\<not> occurs_at (buf example_client @ ?c) i"
      by cases (simp_all add: e occurs_at_def)
  qed
  have "rx_chunk ?tx 0 ?c (example_client, ())
        = parse_commands ?tx 0 (example_client\<lparr>buf := drop (3 + 2) (buf example_client @ ?c)\<rparr>, ())"
    by (rule binary_handshake_discards [OF a b ne o3 later])
  also have "\<dots> = (example_client\<lparr>sent := [0xF1, 0x0C, 0x02]\<rparr>, ())"
    by code_simp
  finally show ?thesis using a b o3 o4 o5 by (simp add: e)
qed

subsection \<open>Accounting of the ingest pipeline\<close>

lemma fst_number_rows: "set (map fst (number_rows n rs)) = {n + 1 .. n + int (length rs)}"
  by (induction rs arbitrary: n) (auto simp: atLeastAtMost_def)

lemma length_number_rows [simp]: "length (number_rows n rs) = length rs"
  by (induction rs arbitrary: n) auto

lemma distinct_number_rows: "distinct (map fst (number_rows n rs))"
proof (induction rs arbitrary: n)
  case (Cons r rs)
  have "n + 1 \<notin> set (map fst (number_rows (n + 1) rs))"
    unfolding fst_number_rows by simp
  with Cons show ?case by simp
qed simp

lemma write_batch_ok: "cache_ok c \<Longrightarrow> cache_ok (fst (write_batch c rows))"
  by (auto simp: cache_ok_def write_batch_def fst_number_rows simp del: set_map
      intro: distinct_number_rows)

lemma write_batch_count:
  "count (fst (write_batch c rows)) = count c + int (length rows)"
  "snd (write_batch c rows) = int (length rows)"
  by (simp_all add: write_batch_def count_def)

lemma delete_read_batch:
  assumes "cache_ok c"
  shows "delete_batch e c (fst (read_batch c n)) = Some c' \<Longrightarrow>
           frames c' = drop (length (fst (read_batch c n))) (frames c) \<and> seq c' = seq c"
    and "length (fst (read_batch c n)) = length (snd (read_batch c n))"
    and "length (snd (read_batch c n)) \<le> length (frames c)"
proof -
  let ?sel = "if n < 0 then frames c else take (nat n) (frames c)"
  obtain k where sel: "?sel = take k (frames c)"
    by (cases "n < 0") (auto intro: that [of "length (frames c)"] that [of "nat n"])
  from assms have d: "distinct (map fst (frames c))" by (simp add: cache_ok_def)
  have "filter (\<lambda>(i, r). i \<notin> set (map fst (take k fs))) fs = drop k fs"
    if "distinct (map fst fs)" for fs :: "(int \<times> row) list" and k
    using that
  proof (induction fs arbitrary: k)
    case (Cons f fs)
    show ?case
    proof (cases k)
      case 0
      then show ?thesis by (simp add: case_prod_unfold)
    next
      case (Suc k')
      from Cons.prems have nf: "fst f \<notin> fst ` set fs" and dfs: "distinct (map fst fs)" by simp_all
      have "filter (\<lambda>(i, r). i \<notin> set (map fst (take k' fs))) fs = drop k' fs"
        using Cons.IH [OF dfs] .
      moreover have "filter (\<lambda>(i, r). i \<notin> insert (fst f) (set (map fst (take k' fs)))) fs
            = filter (\<lambda>(i, r). i \<notin> set (map fst (take k' fs))) fs"
      proof (intro filter_cong refl)
        fix x assume "x \<in> set fs"
        with nf have "fst x \<noteq> fst f" by (metis imageI)
        then show "(case x of (i, r) \<Rightarrow> i \<notin> insert (fst f) (set (map fst (take k' fs))))
            = (case x of (i, r) \<Rightarrow> i \<notin> set (map fst (take k' fs)))"
          by (simp add: case_prod_unfold)
      qed
      ultimately show ?thesis using Suc by (simp add: case_prod_unfold)
    qed
  qed simp
  from this [OF d, of k] sel
  show "frames c' = drop (length (fst (read_batch c n))) (frames c) \<and> seq c' = seq c"
    if "delete_batch e c (fst (read_batch c n)) = Some c'"
    using that by (auto simp: delete_batch_def read_batch_def Let_def min_def split: if_splits)
  show "length (fst (read_batch c n)) = length (snd (read_batch c n))"
    by (simp add: read_batch_def Let_def)
  show "length (snd (read_batch c n)) \<le> length (frames c)"
    by (simp add: read_batch_def Let_def)
qed

lemma same_cfg_refl [simp]: "same_cfg w w"
  by (simp add: same_cfg_def)

lemma same_cfg_trans: "same_cfg a b \<Longrightarrow> same_cfg b c \<Longrightarrow> same_cfg a c"
  by (auto simp: same_cfg_def)

lemma write_to_cache_acct:
  "acct (write_to_cache e w rows) = acct w + int (length rows)
   \<and> (cache_ok (disk_cache w) \<longrightarrow> cache_ok (disk_cache (write_to_cache e w rows)))
   \<and> q (write_to_cache e w rows) = q w \<and> conn (write_to_cache e w rows) = conn w
   \<and> batch (write_to_cache e w rows) = batch w
   \<and> same_cfg w (write_to_cache e w rows)"
  using write_batch_ok [of "disk_cache w" rows] write_batch_count [of "disk_cache w" rows]
  by (auto simp: write_to_cache_def acct_def same_cfg_def split: prod.splits)

lemma drain_items_acct:
  "acct (drain_items e b its w) = acct w + int (length b) + queued its
   \<and> (cache_ok (disk_cache w) \<longrightarrow> cache_ok (disk_cache (drain_items e b its w)))
   \<and> q (drain_items e b its w) = q w \<and> conn (drain_items e b its w) = conn w
   \<and> batch (drain_items e b its w) = batch w
   \<and> same_cfg w (drain_items e b its w)"
proof (induction e b its w rule: drain_items.induct)
  case (1 e b w)
  then show ?case using write_to_cache_acct [of e w b] by simp
next
  case (2 e b its w)
  then show ?case by simp
next
  case (3 e b r its w)
  show ?case
  proof (cases "int (length (b @ [r])) \<ge> batch_size w")
    case True
    note wt = write_to_cache_acct [of e w "b @ [r]"]
    note ih = "3.IH"(1) [OF True]
    from True have eq: "drain_items e b (Row r # its) w
        = drain_items e [] its (write_to_cache e w (b @ [r]))" by simp
    show ?thesis unfolding eq using wt ih by (auto intro: same_cfg_trans)
  next
    case False
    note ih = "3.IH"(2) [OF False]
    from False have eq: "drain_items e b (Row r # its) w = drain_items e (b @ [r]) its w" by simp
    show ?thesis unfolding eq using ih by auto
  qed
qed

lemma drain_queue_acct:
  "acct (drain_queue_to_cache e w) = acct w + queued (q w)
   \<and> (cache_ok (disk_cache w) \<longrightarrow> cache_ok (disk_cache (drain_queue_to_cache e w)))
   \<and> q (drain_queue_to_cache e w) = [] \<and> conn (drain_queue_to_cache e w) = conn w
   \<and> batch (drain_queue_to_cache e w) = batch w
   \<and> same_cfg w (drain_queue_to_cache e w)"
  using drain_items_acct [of e "[]" "q w" "w\<lparr>q := []\<rparr>"]
  by (simp add: drain_queue_to_cache_def acct_def same_cfg_def)

lemma maybe_flush_total:
  "total (maybe_flush_queue_overflow e w) = total w
   \<and> (cache_ok (disk_cache w) \<longrightarrow> cache_ok (disk_cache (maybe_flush_queue_overflow e w)))
   \<and> conn (maybe_flush_queue_overflow e w) = conn w
   \<and> batch (maybe_flush_queue_overflow e w) = batch w
   \<and> same_cfg w (maybe_flush_queue_overflow e w)"
  using drain_queue_acct [of e w]
  by (simp add: maybe_flush_queue_overflow_def total_def Let_def)

lemma worker_except_total:
  "total (worker_except e w) = total w + int (length (batch w))
   \<and> (cache_ok (disk_cache w) \<longrightarrow> cache_ok (disk_cache (worker_except e w)))
   \<and> \<not> conn (worker_except e w) \<and> batch (worker_except e w) = []
   \<and> same_cfg w (worker_except e w)"
proof (cases "batch w = []")
  case True
  then show ?thesis
    using drain_queue_acct [of e "w\<lparr>conn := False, db_unavailable := True\<rparr>"]
    by (simp add: worker_except_def total_def acct_def same_cfg_def)
next
  case False
  let ?w1 = "w\<lparr>conn := False, db_unavailable := True\<rparr>"
  let ?w2 = "(write_to_cache e ?w1 (batch w))\<lparr>batch := []\<rparr>"
  note a = write_to_cache_acct [of e ?w1 "batch w"]
  note b = drain_queue_acct [of e ?w2]
  from False have eq: "worker_except e w = drain_queue_to_cache e ?w2"
    by (simp add: worker_except_def)
  show ?thesis unfolding eq using a b
    by (simp add: total_def acct_def same_cfg_def)
qed

lemma cache_ok_drop:
  assumes "cache_ok c" and "frames c' = drop n (frames c)" and "seq c' = seq c"
  shows "cache_ok c'"
proof -
  from assms(1) have "distinct (map fst (frames c))" by (simp add: cache_ok_def)
  from distinct_drop [OF this, of n] have "distinct (map fst (drop n (frames c)))"
    by (simp add: drop_map)
  moreover from assms(1) have "\<forall>i \<in> set (map fst (drop n (frames c))). i \<le> seq c"
    by (auto simp: cache_ok_def dest: in_set_dropD)
  ultimately show ?thesis using assms(2,3) by (simp add: cache_ok_def)
qed

lemma collect_queued:
  "int (length (fst (collect n b its))) + queued (snd (collect n b its))
   = int (length b) + queued its"
proof (induction n b its rule: collect.induct)
  case (1 n b)
  then show ?case by simp
next
  case (2 n b it its)
  then show ?case by (cases it) auto
qed

lemma worker_queue_total:
  assumes "conn w"
  shows "total (worker_queue e w) = total w
   \<and> (cache_ok (disk_cache w) \<longrightarrow> cache_ok (disk_cache (worker_queue e w)))
   \<and> (\<not> conn (worker_queue e w) \<longrightarrow> batch (worker_queue e w) = [])
   \<and> same_cfg w (worker_queue e w)"
proof -
  obtain b0 q0 where first: "(case q w of [] \<Rightarrow> ([], [])
        | it # its \<Rightarrow> ((case it of Row r \<Rightarrow> [r] | Wake \<Rightarrow> []), its)) = (b0, q0)"
    by (cases "(case q w of [] \<Rightarrow> ([], [])
        | it # its \<Rightarrow> ((case it of Row r \<Rightarrow> [r] | Wake \<Rightarrow> []), its))") auto
  then have f: "int (length b0) + queued q0 = queued (q w)"
    by (auto split: list.splits item.splits)
  obtain b q1 where coll: "collect (batch_size w) b0 q0 = (b, q1)"
    by (cases "collect (batch_size w) b0 q0") auto
  with collect_queued [of "batch_size w" b0 q0] f
  have c: "int (length b) + queued q1 = queued (q w)" by simp
  let ?w1 = "w\<lparr>batch := b, q := q1\<rparr>"
  have t1: "total ?w1 + int (length b) = total w" using c by (simp add: total_def acct_def)
  note ex = worker_except_total [of e ?w1]
  have eq: "worker_queue e w =
      (if b = [] then (if execute_ok e [] then ?w1 else worker_except e ?w1)
       else if execute_ok e b
       then ?w1\<lparr>sql_store := sql_store ?w1 @ b,
                 count_written := count_written ?w1 + int (length b)\<rparr>
       else worker_except e ?w1)"
    by (simp add: worker_queue_def first coll Let_def)
  show ?thesis unfolding eq using t1 ex assms
    by (auto simp: total_def acct_def same_cfg_def)
qed

lemma worker_pass_total:
  assumes nf: "\<not> drain_fails e w" and ok: "cache_ok (disk_cache w)"
    and st: "\<not> conn w \<longrightarrow> batch w = []" and bs: "batch_size w \<noteq> 0"
  shows "total (worker_pass e w) = total w
   \<and> cache_ok (disk_cache (worker_pass e w))
   \<and> (\<not> conn (worker_pass e w) \<longrightarrow> batch (worker_pass e w) = [])
   \<and> same_cfg w (worker_pass e w)"
proof -
  let ?w1 = "maybe_flush_queue_overflow e w"
  note mf = maybe_flush_total [of e w]
  show ?thesis
  proof (cases "\<not> conn ?w1 \<and> \<not> connect_ok e")
    case True
    then have eq: "worker_pass e w = worker_except e ?w1" by (simp add: worker_pass_def Let_def)
    from True mf st have "batch ?w1 = []" by simp
    then show ?thesis unfolding eq using worker_except_total [of e ?w1] mf ok
      by (auto intro: same_cfg_trans)
  next
    case False
    let ?w2 = "if \<not> conn ?w1 then ?w1\<lparr>conn := True, db_unavailable := False\<rparr> else ?w1"
    have c2: "conn ?w2" by simp
    have t2: "total ?w2 = total w" "cache_ok (disk_cache ?w2)" "same_cfg w ?w2"
      using mf ok by (auto simp: total_def acct_def same_cfg_def)
    show ?thesis
    proof (cases "is_empty (disk_cache ?w2)")
      case True
      with False have eq: "worker_pass e w = worker_queue e ?w2"
        by (auto simp: worker_pass_def Let_def)
      show ?thesis unfolding eq using worker_queue_total [OF c2, of e] t2
        by (auto intro: same_cfg_trans)
    next
      case ne: False
      obtain ids b where rb: "read_batch (disk_cache ?w2) (batch_size ?w2) = (ids, b)"
        by (cases "read_batch (disk_cache ?w2) (batch_size ?w2)") auto
      have dc: "disk_cache ?w2 = disk_cache ?w1" "batch_size ?w2 = batch_size ?w1" by simp_all
      from t2(3) bs have bs2: "batch_size ?w2 \<noteq> 0" by (simp add: same_cfg_def)
      from ne bs2 rb have bne: "b \<noteq> []"
        by (auto simp: read_batch_def is_empty_def Let_def split: if_splits)
      from nf False ne rb have exec: "execute_ok e b"
        and del: "delete_batch e (disk_cache ?w2) ids \<noteq> None"
        unfolding drain_fails_def Let_def dc [symmetric] by auto
      from del obtain c' where c': "delete_batch e (disk_cache ?w2) ids = Some c'" by auto
      note dr = delete_read_batch(1) [OF t2(2), where e = e and n = "batch_size ?w2" and c' = c']
        delete_read_batch(2,3) [OF t2(2), of "batch_size ?w2"]
      let ?w3 = "?w2\<lparr>draining_cache := True, batch := b\<rparr>"
      from False ne rb bne exec c' have eq: "worker_pass e w =
          ?w3\<lparr>sql_store := sql_store ?w3 @ b,
               disk_cache := c',
               count_written := count_written ?w3 + int (length b),
               count_cache_recovered := count_cache_recovered ?w3 + int (length b)\<rparr>"
        by (auto simp: worker_pass_def Let_def)
      have fr: "frames c' = drop (length b) (frames (disk_cache ?w2))"
        and sq: "seq c' = seq (disk_cache ?w2)"
        and le: "length b \<le> length (frames (disk_cache ?w2))"
        using dr rb c' by simp_all
      have cok: "cache_ok c'"
        by (rule cache_ok_drop [OF t2(2) fr sq])
      have cnt: "count c' + int (length b) = count (disk_cache ?w2)"
        using fr le by (simp add: count_def)
      show ?thesis unfolding eq using t2 cok cnt c2
        by (auto simp: total_def acct_def same_cfg_def)
    qed
  qed
qed

lemma queued_append_Row: "queued (its @ [Row r]) = queued its + 1"
  by (induction its rule: queued.induct) auto

lemma enqueue_total:
  "total (enqueue w ts can_id dlc data_bytes bus dir_arg is_fd) = total w + 1
   \<and> count_enqueued (enqueue w ts can_id dlc data_bytes bus dir_arg is_fd)
       + (if queue_full w then 1 else 0) = count_enqueued w + 1
   \<and> disk_cache (enqueue w ts can_id dlc data_bytes bus dir_arg is_fd) = disk_cache w
   \<and> conn (enqueue w ts can_id dlc data_bytes bus dir_arg is_fd) = conn w
   \<and> batch (enqueue w ts can_id dlc data_bytes bus dir_arg is_fd) = batch w
   \<and> batch_size (enqueue w ts can_id dlc data_bytes bus dir_arg is_fd) = batch_size w"
  by (simp add: enqueue_def Let_def total_def acct_def queued_append_Row)

lemma run_invariant:
  "cache_ok (disk_cache w) \<Longrightarrow> (\<not> conn w \<longrightarrow> batch w = []) \<Longrightarrow> batch_size w \<noteq> 0 \<Longrightarrow>
   drain_ok evs w \<Longrightarrow>
     total (run evs w) = total w + attempts evs
     \<and> count_enqueued (run evs w) + rejected evs w = count_enqueued w + attempts evs"
proof (induction evs arbitrary: w)
  case Nil
  then show ?case by simp
next
  case (Cons ev evs)
  show ?case
  proof (cases ev)
    case (Enqueue ts can_id dlc data_bytes bus dir_arg is_fd)
    let ?w' = "enqueue w ts can_id dlc data_bytes bus dir_arg is_fd"
    note en = enqueue_total [of w ts can_id dlc data_bytes bus dir_arg is_fd]
    from Cons.prems Enqueue en have
      "total (run evs ?w') = total ?w' + attempts evs
       \<and> count_enqueued (run evs ?w') + rejected evs ?w' = count_enqueued ?w' + attempts evs"
      by (intro Cons.IH) simp_all
    with en Enqueue show ?thesis by simp
  next
    case (Worker e)
    let ?w' = "worker_pass e w"
    from Cons.prems Worker have nf: "\<not> drain_fails e w" and rest: "drain_ok evs ?w'" by simp_all
    note wp = worker_pass_total [OF nf Cons.prems(1,2,3)]
    from wp Cons.prems(3) have bs: "batch_size ?w' \<noteq> 0" by (simp add: same_cfg_def)
    from wp have
      "total (run evs ?w') = total ?w' + attempts evs
       \<and> count_enqueued (run evs ?w') + rejected evs ?w' = count_enqueued ?w' + attempts evs"
      using rest bs by (intro Cons.IH) simp_all
    with wp Worker show ?thesis by (simp add: same_cfg_def)
  qed
qed

text \<open>
  C2 (as amended). A writer starts with an empty queue, zero counters, a batch size that
  is not 0 and a spill store that may hold entries of an earlier session; producers call
  \<^verbatim>\<open>enqueue\<close> and the worker makes passes, none of which meets a failure on a batch it
  is draining from the spill store: neither executing the batch on the SQL store nor
  deleting it from the spill store raises. Then at every state between these steps each
  \<^verbatim>\<open>enqueue\<close> call and each entry found in the spill store is accounted for once:
  calls + entries found = written + dropped + spilled entries not yet drained + entries in
  the queue. The enqueued counter counts only the calls the queue accepted and the dropped
  counter also counts the calls it rejected, so
  enqueued + entries found = written + (dropped - rejected calls) + spilled not yet
  drained + queued. When the spill store and the queue are empty and nothing but rejected
  calls was dropped, written = enqueued + entries found, and no spilled entry is left.
\<close>

theorem ingest_accounting:
  assumes "bs \<noteq> 0" and "cache_ok cache0"
    and "drain_ok evs (PostgresWriter bs qmax dd mb pct cache0)"
    and "w = run evs (PostgresWriter bs qmax dd mb pct cache0)"
    and "rej = rejected evs (PostgresWriter bs qmax dd mb pct cache0)"
  shows "count_enqueued w + count cache0
           = count_written w + (count_dropped w - rej) + count (disk_cache w) + queued (q w)
       \<and> attempts evs + count cache0
           = count_written w + count_dropped w + count (disk_cache w) + queued (q w)
       \<and> count_enqueued w + rej = attempts evs
       \<and> (is_empty (disk_cache w) \<and> queued (q w) = 0 \<and> count_dropped w = rej
            \<longrightarrow> count_written w = count_enqueued w + count cache0
                \<and> count (disk_cache w) = 0)"
proof -
  let ?w0 = "PostgresWriter bs qmax dd mb pct cache0"
  have init: "cache_ok (disk_cache ?w0)" "\<not> conn ?w0 \<longrightarrow> batch ?w0 = []" "batch_size ?w0 \<noteq> 0"
    "total ?w0 = count cache0" "count_enqueued ?w0 = 0"
    using assms(1,2)
    by (simp_all add: PostgresWriter_def cache_ok_def total_def acct_def count_def)
  from run_invariant [OF init(1,2,3) assms(3)] init(4,5) assms(4,5)
  have "total w = attempts evs + count cache0" "count_enqueued w + rej = attempts evs"
    by simp_all
  then show ?thesis by (auto simp: total_def acct_def count_def is_empty_def)
qed

theorem ingest_accounting_witness:
  "(500 :: int) \<noteq> 0
   \<and> drain_ok [Enqueue 1 0x123 1 [0xAA] 0 None False, Enqueue 2 0x124 1 [0xBB] 0 None False,
                Worker env_down, Worker env_up, Worker env_up]
         (PostgresWriter 500 1 ''rx'' 1000 50 (DiskCache 1000))
   \<and> rejected [Enqueue 1 0x123 1 [0xAA] 0 None False, Enqueue 2 0x124 1 [0xBB] 0 None False,
                Worker env_down, Worker env_up, Worker env_up]
         (PostgresWriter 500 1 ''rx'' 1000 50 (DiskCache 1000)) = 1
   \<and> count_enqueued (run [Enqueue 1 0x123 1 [0xAA] 0 None False,
                Enqueue 2 0x124 1 [0xBB] 0 None False, Worker env_down, Worker env_up, Worker env_up]
         (PostgresWriter 500 1 ''rx'' 1000 50 (DiskCache 1000))) = 1
   \<and> count_written (run [Enqueue 1 0x123 1 [0xAA] 0 None False,
                Enqueue 2 0x124 1 [0xBB] 0 None False, Worker env_down, Worker env_up, Worker env_up]
         (PostgresWriter 500 1 ''rx'' 1000 50 (DiskCache 1000))) = 1
   \<and> count_dropped (run [Enqueue 1 0x123 1 [0xAA] 0 None False,
                Enqueue 2 0x124 1 [0xBB] 0 None False, Worker env_down, Worker env_up, Worker env_up]
         (PostgresWriter 500 1 ''rx'' 1000 50 (DiskCache 1000))) = 1"
proof -
  let ?evs = "[Enqueue 1 0x123 1 [0xAA] 0 None False, Enqueue 2 0x124 1 [0xBB] 0 None False,
                Worker env_down, Worker env_up, Worker env_up]"
  let ?w0 = "PostgresWriter 500 1 ''rx'' 1000 50 (DiskCache 1000)"
  have ok: "drain_ok ?evs ?w0" by code_simp
  have rej: "rejected ?evs ?w0 = 1" by code_simp
  have dr: "count_dropped (run ?evs ?w0) = 1" by code_simp
  have em: "is_empty (disk_cache (run ?evs ?w0))" "queued (q (run ?evs ?w0)) = 0" by code_simp+
  have bs: "(500 :: int) \<noteq> 0" by simp
  have c0: "cache_ok (DiskCache 1000)" by (simp add: cache_ok_def DiskCache_def)
  have n0: "count (DiskCache 1000) = 0" by (simp add: count_def DiskCache_def)
  from ingest_accounting [OF bs c0 ok refl refl] rej dr em ok n0
  show ?thesis by (simp add: is_empty_def count_def)
qed

text \<open>
  C2 as stated fails when the queue is full: with a queue of capacity 1, the second of two
  \<^verbatim>\<open>enqueue\<close> calls is dropped and counted as dropped, not as enqueued, so
  enqueued = 1 while written + dropped + spilled + queued = 0 + 1 + 0 + 1. It also fails
  for a writer that finds an entry of an earlier session in its spill store: after one
  pass that entry is written, so written = 1 while enqueued = 0, with an empty queue, an
  empty spill store and no failure.
\<close>

theorem ingest_accounting_counterexample:
  "count_enqueued (run [Enqueue 1 0x123 1 [0xAA] 0 None False,
                       Enqueue 2 0x124 1 [0xBB] 0 None False]
                      (PostgresWriter 500 1 ''rx'' 1000 50 (DiskCache 1000))) = 1
   \<and> count_written (run [Enqueue 1 0x123 1 [0xAA] 0 None False,
                       Enqueue 2 0x124 1 [0xBB] 0 None False]
                      (PostgresWriter 500 1 ''rx'' 1000 50 (DiskCache 1000))) = 0
   \<and> count_dropped (run [Enqueue 1 0x123 1 [0xAA] 0 None False,
                       Enqueue 2 0x124 1 [0xBB] 0 None False]
                      (PostgresWriter 500 1 ''rx'' 1000 50 (DiskCache 1000))) = 1
   \<and> count (disk_cache (run [Enqueue 1 0x123 1 [0xAA] 0 None False,
                       Enqueue 2 0x124 1 [0xBB] 0 None False]
                      (PostgresWriter 500 1 ''rx'' 1000 50 (DiskCache 1000)))) = 0
   \<and> length (q (run [Enqueue 1 0x123 1 [0xAA] 0 None False,
                       Enqueue 2 0x124 1 [0xBB] 0 None False]
                      (PostgresWriter 500 1 ''rx'' 1000 50 (DiskCache 1000)))) = 1
   \<and> count_enqueued (run [Worker env_up]
        (PostgresWriter 500 50000 ''rx'' 1000 50
           (fst (write_batch (DiskCache 1000) [example_row])))) = 0
   \<and> count_written (run [Worker env_up]
        (PostgresWriter 500 50000 ''rx'' 1000 50
           (fst (write_batch (DiskCache 1000) [example_row])))) = 1
   \<and> is_empty (disk_cache (run [Worker env_up]
        (PostgresWriter 500 50000 ''rx'' 1000 50
           (fst (write_batch (DiskCache 1000) [example_row])))))
   \<and> q (run [Worker env_up]
        (PostgresWriter 500 50000 ''rx'' 1000 50
           (fst (write_batch (DiskCache 1000) [example_row])))) = []"
  by code_simp

text \<open>
  The accounting does not survive a failure of the delete. When the batch read from the
  spill store has been committed and \<^verbatim>\<open>delete_batch\<close> raises, the counters have not
  been updated yet and the \<^verbatim>\<open>except\<close> branch spills the committed batch again: its
  rows are in the SQL store, not counted as written, and twice in the spill store. With a
  batch size of 1000 and an SQLite library that takes 999 parameters this happens on every
  drain of a full batch.
\<close>

lemma maybe_flush_empty: "q w = [] \<Longrightarrow> maybe_flush_queue_overflow e w = w"
  by (simp add: maybe_flush_queue_overflow_def drain_queue_to_cache_def Let_def)

lemma drain_queue_empty: "q w = [] \<Longrightarrow> drain_queue_to_cache e w = w"
  by (simp add: drain_queue_to_cache_def)

lemma drain_delete_failure:
  assumes up: "conn w \<or> connect_ok e" and qe: "q w = []"
    and rb: "read_batch (disk_cache w) (batch_size w) = (ids, b)" and bne: "b \<noteq> []"
    and ex: "execute_ok e b" and del: "\<not> delete_ok e (disk_cache w) ids"
    and nf: "\<not> is_full e (disk_cache w)" and wr: "write_ok e (disk_cache w) b"
  shows "sql_store (worker_pass e w) = sql_store w @ b
     \<and> count_written (worker_pass e w) = count_written w
     \<and> frames (disk_cache (worker_pass e w))
         = frames (disk_cache w) @ number_rows (seq (disk_cache w)) b"
proof -
  from rb bne have ne: "\<not> is_empty (disk_cache w)" and ids: "ids \<noteq> []"
    by (auto simp: read_batch_def is_empty_def Let_def split: if_splits)
  from ids del have none: "delete_batch e (disk_cache w) ids = None"
    by (simp add: delete_batch_def)
  show ?thesis using up qe rb bne ex none nf wr ne
    by (auto simp: worker_pass_def maybe_flush_empty worker_except_def drain_queue_empty
        write_to_cache_def write_batch_def Let_def)
qed

lemma drain_delete_failure_999:
  "length (sql_store (worker_pass env_limit_999
      (PostgresWriter 1000 50000 ''rx'' 1000 50
         (fst (write_batch (DiskCache 1000) (replicate 1000 example_row)))))) = 1000
   \<and> count_written (worker_pass env_limit_999
      (PostgresWriter 1000 50000 ''rx'' 1000 50
         (fst (write_batch (DiskCache 1000) (replicate 1000 example_row))))) = 0
   \<and> count (disk_cache (worker_pass env_limit_999
      (PostgresWriter 1000 50000 ''rx'' 1000 50
         (fst (write_batch (DiskCache 1000) (replicate 1000 example_row)))))) = 2000"
proof -
  let ?c = "fst (write_batch (DiskCache 1000) (replicate 1000 example_row))"
  let ?w = "PostgresWriter 1000 50000 ''rx'' 1000 50 ?c"
  define rows where "rows = replicate 1000 example_row"
  have lr: "length rows = 1000" "rows \<noteq> []" by (auto simp: rows_def)
  have fc: "frames (disk_cache ?w) = number_rows 0 rows"
    using lr by (simp add: PostgresWriter_def write_batch_def DiskCache_def rows_def [symmetric])
  obtain ids b where rb: "read_batch (disk_cache ?w) (batch_size ?w) = (ids, b)"
    by (cases "read_batch (disk_cache ?w) (batch_size ?w)") auto
  have bs: "batch_size ?w = 1000" by (simp add: PostgresWriter_def)
  from rb fc lr bs have len: "length ids = 1000" "length b = 1000"
    by (auto simp: read_batch_def Let_def length_number_rows)
  then have bne: "b \<noteq> []" by auto
  have e: "connect_ok env_limit_999" "execute_ok env_limit_999 b"
    "\<not> delete_ok env_limit_999 (disk_cache ?w) ids"
    "\<not> is_full env_limit_999 (disk_cache ?w)" "write_ok env_limit_999 (disk_cache ?w) b"
    using len
    by (simp_all add: env_limit_999_def env_up_def is_full_def size_bytes_def PostgresWriter_def)
  have q0: "q ?w = []" "sql_store ?w = []" "count_written ?w = 0"
    by (simp_all add: PostgresWriter_def)
  from drain_delete_failure [OF _ q0(1) rb bne e(2,3,4,5)] e(1) q0 fc len lr
  show ?thesis by (simp add: count_def length_number_rows)
qed

subsection \<open>Order of commits\<close>

text \<open>
  C1 fails when the SQL store fails while a spilled batch is being drained. Entries 1 and
  2 are enqueued and spilled during an outage (the cache holds 1, 2). On the next pass the
  connection is made, the worker reads the batch 1, 2 from the cache into \<^verbatim>\<open>batch\<close>
  and executing it fails; the \<^verbatim>\<open>except\<close> branch writes \<^verbatim>\<open>batch\<close> to the cache, where
  these rows still are (the cache holds 1, 2, 1, 2). When the store is back the commit
  order is 1, 2, 1, 2, and the written counter is 4 for 2 enqueued entries.
\<close>

theorem spill_drain_failure_duplicates:
  "map r_ts (map snd (frames (disk_cache
      (run [Enqueue 1 0x123 1 [0xAA] 0 None False, Enqueue 2 0x124 1 [0xBB] 0 None False,
            Worker env_down]
         (PostgresWriter 500 50000 ''rx'' 1000 50 (DiskCache 1000)))))) = [1, 2]
   \<and> map r_ts (map snd (frames (disk_cache
      (run [Enqueue 1 0x123 1 [0xAA] 0 None False, Enqueue 2 0x124 1 [0xBB] 0 None False,
            Worker env_down, Worker env_db_error]
         (PostgresWriter 500 50000 ''rx'' 1000 50 (DiskCache 1000)))))) = [1, 2, 1, 2]
   \<and> map r_ts (sql_store
      (run [Enqueue 1 0x123 1 [0xAA] 0 None False, Enqueue 2 0x124 1 [0xBB] 0 None False,
            Worker env_down, Worker env_db_error, Worker env_up]
         (PostgresWriter 500 50000 ''rx'' 1000 50 (DiskCache 1000)))) = [1, 2, 1, 2]
   \<and> count_enqueued
      (run [Enqueue 1 0x123 1 [0xAA] 0 None False, Enqueue 2 0x124 1 [0xBB] 0 None False,
            Worker env_down, Worker env_db_error, Worker env_up]
         (PostgresWriter 500 50000 ''rx'' 1000 50 (DiskCache 1000))) = 2
   \<and> count_written
      (run [Enqueue 1 0x123 1 [0xAA] 0 None False, Enqueue 2 0x124 1 [0xBB] 0 None False,
            Worker env_down, Worker env_db_error, Worker env_up]
         (PostgresWriter 500 50000 ''rx'' 1000 50 (DiskCache 1000))) = 4"
  by code_simp

text \<open>
  The shutdown path misses the order as well. With batch size 1, entries 1 and 2 are
  spilled during an outage and one pass drains entry 1; entry 3 is enqueued and the worker
  shuts down with a live connection: \<^verbatim>\<open>_shutdown_flush\<close> commits entry 3 while the
  cache still holds entry 2.
\<close>

lemma shutdown_flush_overtakes_cache:
  "map r_ts (sql_store
      (shutdown_flush env_up
         (run [Enqueue 1 0x123 1 [0xAA] 0 None False, Enqueue 2 0x124 1 [0xBB] 0 None False,
               Worker env_down, Worker env_up, Enqueue 3 0x125 1 [0xCC] 0 None False]
            (PostgresWriter 1 50000 ''rx'' 1000 50 (DiskCache 1000))))) = [1, 3]
   \<and> map r_ts (map snd (frames (disk_cache
      (shutdown_flush env_up
         (run [Enqueue 1 0x123 1 [0xAA] 0 None False, Enqueue 2 0x124 1 [0xBB] 0 None False,
               Worker env_down, Worker env_up, Enqueue 3 0x125 1 [0xCC] 0 None False]
            (PostgresWriter 1 50000 ''rx'' 1000 50 (DiskCache 1000))))))) = [2]"
  by code_simp

subsection \<open>A full spill store\<close>

lemma full_write_to_cache:
  "is_full e (disk_cache w) \<Longrightarrow>
     write_to_cache e w rows = w\<lparr>count_dropped := count_dropped w + int (length rows)\<rparr>"
  by (simp add: write_to_cache_def)

lemma full_drain_items:
  "is_full e (disk_cache w) \<Longrightarrow> disk_cache (drain_items e b its w) = disk_cache w"
  by (induction e b its w rule: drain_items.induct) (simp_all add: full_write_to_cache)

lemma full_drain_queue:
  "is_full e (disk_cache w) \<Longrightarrow> disk_cache (drain_queue_to_cache e w) = disk_cache w"
  by (simp add: drain_queue_to_cache_def full_drain_items)

lemma full_worker_except:
  "is_full e (disk_cache w) \<Longrightarrow> disk_cache (worker_except e w) = disk_cache w"
  by (simp add: worker_except_def full_drain_queue full_write_to_cache Let_def)

lemma full_worker_queue:
  "is_full e (disk_cache w) \<Longrightarrow> disk_cache (worker_queue e w) = disk_cache w"
  by (simp add: worker_queue_def full_worker_except Let_def split: prod.splits)

lemma full_maybe_flush:
  "is_full e (disk_cache w) \<Longrightarrow> disk_cache (maybe_flush_queue_overflow e w) = disk_cache w"
  by (simp add: maybe_flush_queue_overflow_def full_drain_queue Let_def)

lemma maybe_flush_batch_size:
  "batch_size (maybe_flush_queue_overflow e w) = batch_size w"
  using maybe_flush_total [of e w] by (simp add: same_cfg_def)

lemma read_batch_nonempty:
  "\<not> is_empty c \<Longrightarrow> n \<noteq> 0 \<Longrightarrow> read_batch c n = (ids, b) \<Longrightarrow> b \<noteq> []"
  by (auto simp: read_batch_def is_empty_def Let_def split: if_splits)

lemma delete_batch_length:
  "delete_batch e c ids = Some c' \<Longrightarrow> length (frames c') \<le> length (frames c)"
  by (auto simp: delete_batch_def split: if_splits)

lemma full_worker_pass:
  assumes full: "is_full e (disk_cache w)" and bs: "batch_size w \<noteq> 0"
  shows "length (frames (disk_cache (worker_pass e w))) \<le> length (frames (disk_cache w))
     \<and> (disk_cache (worker_pass e w) = disk_cache w
        \<or> delete_batch e (disk_cache w) (fst (read_batch (disk_cache w) (batch_size w)))
            = Some (disk_cache (worker_pass e w)))"
proof -
  let ?w1 = "maybe_flush_queue_overflow e w"
  have c1: "disk_cache ?w1 = disk_cache w" by (rule full_maybe_flush [OF full])
  have b1: "batch_size ?w1 \<noteq> 0" "batch_size ?w1 = batch_size w"
    using bs by (simp_all add: maybe_flush_batch_size)
  have f1: "is_full e (disk_cache ?w1)" using full c1 by simp
  show ?thesis
  proof (cases "\<not> conn ?w1 \<and> \<not> connect_ok e")
    case True
    then have "worker_pass e w = worker_except e ?w1" by (simp add: worker_pass_def Let_def)
    then show ?thesis using full_worker_except [OF f1] c1 by simp
  next
    case False
    let ?w2 = "if \<not> conn ?w1 then ?w1\<lparr>conn := True, db_unavailable := False\<rparr> else ?w1"
    have c2: "disk_cache ?w2 = disk_cache w" "batch_size ?w2 \<noteq> 0"
      "batch_size ?w2 = batch_size w" using c1 b1 by simp_all
    have f2: "is_full e (disk_cache ?w2)" using full c2 by simp
    show ?thesis
    proof (cases "is_empty (disk_cache ?w2)")
      case True
      with False have "worker_pass e w = worker_queue e ?w2"
        by (auto simp: worker_pass_def Let_def)
      then show ?thesis using full_worker_queue [OF f2] c2 by simp
    next
      case ne: False
      obtain ids b where rb: "read_batch (disk_cache ?w2) (batch_size ?w2) = (ids, b)"
        by (cases "read_batch (disk_cache ?w2) (batch_size ?w2)") auto
      from read_batch_nonempty [OF ne c2(2) rb] have bne: "b \<noteq> []" .
      let ?w3 = "?w2\<lparr>draining_cache := True, batch := b\<rparr>"
      have f3: "is_full e (disk_cache ?w3)" using f2 by simp
      show ?thesis
      proof (cases "execute_ok e b")
        case ex: True
        let ?w4 = "?w3\<lparr>sql_store := sql_store ?w3 @ b\<rparr>"
        have f4: "is_full e (disk_cache ?w4)" using f2 by simp
        show ?thesis
        proof (cases "delete_batch e (disk_cache ?w2) ids")
          case None
          with False ne rb bne ex have "worker_pass e w = worker_except e ?w4"
            by (auto simp: worker_pass_def Let_def)
          then show ?thesis using full_worker_except [OF f4] c2 by simp
        next
          case (Some c')
          with False ne rb bne ex have "disk_cache (worker_pass e w) = c'"
            by (auto simp: worker_pass_def Let_def)
          then show ?thesis using delete_batch_length [OF Some] Some rb c2 by simp
        qed
      next
        case nex: False
        with False ne rb bne have "worker_pass e w = worker_except e ?w3"
          by (auto simp: worker_pass_def Let_def)
        then show ?thesis using full_worker_except [OF f3] c2 by simp
      qed
    qed
  qed
qed

text \<open>
  C8 (as amended). Whenever the size of the spill store is at or above its maximum,
  \<^verbatim>\<open>_write_to_cache\<close>, the one caller of the store's append, does not call it: it
  leaves the store as it is and adds the length of the batch to the drop counter. So a
  pass of the worker that starts with a full store never makes its contents grow: what it
  would spill is dropped, and the store changes only by the rows the pass drains from it.
  (The batch size is other than 0: with batch size 0 the worker reads an empty batch from
  a store that holds rows and replaces the file by a new, empty one.)
\<close>

theorem spill_full_drops_batch:
  "(is_full e (disk_cache w) \<longrightarrow>
      write_to_cache e w rows = w\<lparr>count_dropped := count_dropped w + int (length rows)\<rparr>)
   \<and> (is_full e (disk_cache w) \<and> batch_size w \<noteq> 0 \<longrightarrow>
      length (frames (disk_cache (worker_pass e w))) \<le> length (frames (disk_cache w))
      \<and> (disk_cache (worker_pass e w) = disk_cache w
         \<or> delete_batch e (disk_cache w) (fst (read_batch (disk_cache w) (batch_size w)))
             = Some (disk_cache (worker_pass e w))))"
  using full_write_to_cache [of e w rows] full_worker_pass [of e w] by blast

theorem spill_full_drops_batch_witness:
  "is_full env_full_down
     (disk_cache (enqueue (PostgresWriter 500 50000 ''rx'' 1000 50
                             (fst (write_batch (DiskCache 1000) [example_row])))
                    2 0x124 1 [0xBB] 0 None False))
   \<and> batch_size (enqueue (PostgresWriter 500 50000 ''rx'' 1000 50
                            (fst (write_batch (DiskCache 1000) [example_row])))
                   2 0x124 1 [0xBB] 0 None False) = 500
   \<and> write_to_cache env_full_down
        (enqueue (PostgresWriter 500 50000 ''rx'' 1000 50
                    (fst (write_batch (DiskCache 1000) [example_row])))
           2 0x124 1 [0xBB] 0 None False) [example_row]
       = (enqueue (PostgresWriter 500 50000 ''rx'' 1000 50
                     (fst (write_batch (DiskCache 1000) [example_row])))
            2 0x124 1 [0xBB] 0 None False)\<lparr>count_dropped := 1\<rparr>
   \<and> length (frames (disk_cache (worker_pass env_full_down
        (enqueue (PostgresWriter 500 50000 ''rx'' 1000 50
                    (fst (write_batch (DiskCache 1000) [example_row])))
           2 0x124 1 [0xBB] 0 None False)))) \<le> 1
   \<and> q (enqueue (PostgresWriter 500 50000 ''rx'' 1000 50
                   (fst (write_batch (DiskCache 1000) [example_row])))
          2 0x124 1 [0xBB] 0 None False)
       = [Row \<lparr>r_ts = 2, r_extended = False, r_is_fd = False, r_arb_id = 0x124,
               r_id_hex = None, r_dlc = 1, r_data = [0xBB], r_bus = 0, r_dir = ''rx''\<rparr>]
   \<and> q (worker_pass env_full_down
        (enqueue (PostgresWriter 500 50000 ''rx'' 1000 50
                    (fst (write_batch (DiskCache 1000) [example_row])))
           2 0x124 1 [0xBB] 0 None False)) = []
   \<and> count_dropped (worker_pass env_full_down
        (enqueue (PostgresWriter 500 50000 ''rx'' 1000 50
                    (fst (write_batch (DiskCache 1000) [example_row])))
           2 0x124 1 [0xBB] 0 None False)) = 1
   \<and> count_cached (worker_pass env_full_down
        (enqueue (PostgresWriter 500 50000 ''rx'' 1000 50
                    (fst (write_batch (DiskCache 1000) [example_row])))
           2 0x124 1 [0xBB] 0 None False)) = 0
   \<and> disk_cache (worker_pass env_full_down
        (enqueue (PostgresWriter 500 50000 ''rx'' 1000 50
                    (fst (write_batch (DiskCache 1000) [example_row])))
           2 0x124 1 [0xBB] 0 None False))
       = disk_cache (enqueue (PostgresWriter 500 50000 ''rx'' 1000 50
                                (fst (write_batch (DiskCache 1000) [example_row])))
                       2 0x124 1 [0xBB] 0 None False)
   \<and> map fst (frames (disk_cache (worker_pass env_full_down
        (enqueue (PostgresWriter 500 50000 ''rx'' 1000 50
                    (fst (write_batch (DiskCache 1000) [example_row])))
           2 0x124 1 [0xBB] 0 None False)))) = [1]"
proof -
  let ?w = "enqueue (PostgresWriter 500 50000 ''rx'' 1000 50
                       (fst (write_batch (DiskCache 1000) [example_row])))
              2 0x124 1 [0xBB] 0 None False"
  have full: "is_full env_full_down (disk_cache ?w)" by code_simp
  have bs: "batch_size ?w = 500" by code_simp
  have fr: "length (frames (disk_cache ?w)) = 1" "count_dropped ?w = 0" by code_simp+
  have qs: "q ?w = [Row \<lparr>r_ts = 2, r_extended = False, r_is_fd = False, r_arb_id = 0x124,
               r_id_hex = None, r_dlc = 1, r_data = [0xBB], r_bus = 0, r_dir = ''rx''\<rparr>]"
    by code_simp
  have pass: "q (worker_pass env_full_down ?w) = []"
    "count_dropped (worker_pass env_full_down ?w) = 1"
    "count_cached (worker_pass env_full_down ?w) = 0"
    "map fst (frames (disk_cache (worker_pass env_full_down ?w))) = [1]"
    "disk_cache (worker_pass env_full_down ?w) = disk_cache ?w"
    by code_simp+
  have len: "length [example_row] = 1" by simp
  from spill_full_drops_batch [of env_full_down ?w "[example_row]"] full bs fr qs pass len
  show ?thesis by simp
qed

text \<open>
  C8 as stated fails for the append itself: \<^verbatim>\<open>write_batch\<close> does not look at the size,
  and on a full store it stores the row and reports one row written.
\<close>

theorem spill_full_drops_batch_counterexample:
  "is_full env_full (DiskCache 1000)
   \<and> frames (DiskCache 1000) = []
   \<and> frames (fst (write_batch (DiskCache 1000) [example_row])) = [(1, example_row)]
   \<and> snd (write_batch (DiskCache 1000) [example_row]) = 1"
  by (simp add: is_full_def size_bytes_def env_full_def env_up_def DiskCache_def write_batch_def
      example_row_def)

end
